theory Spec2Isabelle
  imports Main
begin

section \<open>Data model of \<open>src/spellchecker.ts\<close>\<close>

text \<open>
  A JavaScript string is modelled as a \<open>string\<close>: one \<open>char\<close> per code unit, lengths and
  offsets counted in code units. The default tokenizer only distinguishes ASCII letters,
  digits, the underscore and the apostrophe from everything else, so every other code
  unit behaves like any other non-word character. JavaScript numbers that hold line
  numbers, columns and offsets are modelled as \<open>int\<close>.
\<close>

record token =
  word :: string
  pos :: int

subsection \<open>The default tokenizer\<close>

text \<open>
  \<^verbatim>\<open>const wordReg = /\b[a-zA-Z']+\b/g\<close>

  The regular expression is embedded by its matching semantics. \<open>\b\<close> holds at an index
  when exactly one of the code units before and after it is a word character
  (\<open>[A-Za-z0-9_]\<close>; the two ends of the text count as non-word). The greedy \<open>+\<close> first takes
  the longest run of class characters and then gives characters back one at a time until
  the closing \<open>\b\<close> holds. \<open>exec\<close> on a global expression tries the start indices from
  \<open>lastIndex\<close> upwards and leaves \<open>lastIndex\<close> at the end of the match.
\<close>

definition apostrophe :: char where
  "apostrophe = CHR 0x27"

definition asciiLetters :: string where
  "asciiLetters = ''abcdefghijklmnopqrstuvwxyzABCDEFGHIJKLMNOPQRSTUVWXYZ''"

definition isWordChar :: "char \<Rightarrow> bool" where
  "isWordChar c \<longleftrightarrow> c \<in> set (asciiLetters @ ''0123456789_'')"

definition inWordClass :: "char \<Rightarrow> bool" where
  "inWordClass c \<longleftrightarrow> c \<in> set (apostrophe # asciiLetters)"

definition isWordCharAt :: "string \<Rightarrow> nat \<Rightarrow> bool" where
  "isWordCharAt text i \<longleftrightarrow> i < length text \<and> isWordChar (text ! i)"

definition wordBoundary :: "string \<Rightarrow> nat \<Rightarrow> bool" where
  "wordBoundary text i \<longleftrightarrow> (0 < i \<and> isWordCharAt text (i - 1)) \<noteq> isWordCharAt text i"

definition classRun :: "string \<Rightarrow> nat \<Rightarrow> nat" where
  "classRun text i = length (takeWhile inWordClass (drop i text))"

fun backtrack :: "string \<Rightarrow> nat \<Rightarrow> nat \<Rightarrow> nat option" where
  "backtrack text i 0 = None"
| "backtrack text i (Suc k) =
     (if wordBoundary text (i + Suc k) then Some (Suc k) else backtrack text i k)"

definition matchAt :: "string \<Rightarrow> nat \<Rightarrow> nat option" where
  "matchAt text i =
     (if wordBoundary text i then backtrack text i (classRun text i) else None)"

fun firstMatch :: "string \<Rightarrow> nat list \<Rightarrow> (nat \<times> nat) option" where
  "firstMatch text [] = None"
| "firstMatch text (i # is) =
     (case matchAt text i of
        Some len \<Rightarrow> Some (i, len)
      | None \<Rightarrow> firstMatch text is)"

definition regexExec :: "string \<Rightarrow> nat \<Rightarrow> (nat \<times> nat) option" where
  "regexExec text lastIndex = firstMatch text [lastIndex ..< Suc (length text)]"

text \<open>
  \<^verbatim>\<open>while ((match = wordReg.exec(text)) !== null) { ... if (word.length < 2) continue; yield { word, pos } }\<close>

  The generator is consumed to its end by the only caller, so it is modelled by the
  list of the tokens it yields.
\<close>

function defaultTokenizeFrom :: "string \<Rightarrow> nat \<Rightarrow> token list" where
  "defaultTokenizeFrom text lastIndex =
     (case regexExec text lastIndex of
        None \<Rightarrow> []
      | Some (p, len) \<Rightarrow>
          (let w = take len (drop p text) in
           if length w < 2 then defaultTokenizeFrom text (p + len)
           else \<lparr>word = w, pos = int p\<rparr> # defaultTokenizeFrom text (p + len)))"
  by pat_completeness auto
termination
proof -
  have bt: "0 < len" if "backtrack s i k = Some len" for s i k len
    using that by (induction k) (auto split: if_splits)
  have fm: "p \<in> set js \<and> 0 < len" if "firstMatch s js = Some (p, len)" for s js p len
    using that
    by (induction js) (auto simp: matchAt_def split: option.splits if_splits dest: bt)
  have ex: "lastIndex \<le> p \<and> p \<le> length s \<and> 0 < len"
    if "regexExec s lastIndex = Some (p, len)" for s lastIndex p len
    using fm [OF that [unfolded regexExec_def]] by auto
  show ?thesis
    by (relation "measure (\<lambda>(s, lastIndex). Suc (length s) - lastIndex)")
       (auto dest!: ex)
qed

declare defaultTokenizeFrom.simps [simp del]

definition defaultTokenize :: "string \<Rightarrow> token list" where
  "defaultTokenize text = defaultTokenizeFrom text 0"

subsection \<open>Options, messages and markers\<close>

text \<open>
  \<^verbatim>\<open>type XRange = Pick<Monaco.Range, 'startLineNumber' | 'startColumn' | 'endLineNumber' | 'endColumn'>\<close>

  A marker (\<open>IMarkerData\<close>) carries the four fields of a range and is passed where a range
  is expected, so it is a record extension of the range.
\<close>

record xrange =
  startLineNumber :: int
  startColumn :: int
  endLineNumber :: int
  endColumn :: int

datatype markerSeverity = Hint | Info | Warning | Error

record marker = xrange +
  code :: string
  message :: string
  severity :: markerSeverity

datatype messageType = HoverMessage | Ignore | AddWord | ApplySuggestion

text \<open>
  What a callback of the embedder hands back: a plain value, a promise that fulfils with a
  value, an exception, or a promise that rejects.
\<close>

datatype 'a returned = Returns 'a | Resolves 'a | Throws | Rejects

text \<open>
  The \<open>Options\<close> interface. \<open>'d\<close> is the state of the embedder (its dictionary, its ignore
  list, anything its callbacks read or write): \<open>check\<close> and \<open>suggest\<close> take it and return
  it updated, so a checker need not answer twice alike. The callbacks act on the embedder's
  state only: none of them calls back into the session. A custom \<open>tokenize\<close> is a function
  of the line; the fourth argument of \<open>messageBuilder\<close> (the options themselves) is left out.
  The field \<open>severity\<close> of the options is written \<open>optSeverity\<close>, the name \<open>severity\<close>
  being the marker's.
\<close>

record 'd options =
  optSeverity :: "markerSeverity option"
  languageSelector :: "string option"
  tokenize :: "(string \<Rightarrow> token list) option"
  check :: "'d \<Rightarrow> string \<Rightarrow> bool returned \<times> 'd"
  suggest :: "'d \<Rightarrow> string \<Rightarrow> string list returned \<times> 'd"
  ignore :: "(string \<Rightarrow> 'd \<Rightarrow> 'd) option"
  addWord :: "(string \<Rightarrow> 'd \<Rightarrow> 'd) option"
  messageBuilder :: "(messageType \<Rightarrow> string \<Rightarrow> xrange \<Rightarrow> string) option"

definition ignoreActionId :: string where
  "ignoreActionId = ''spellchecker.ignore''"

definition addWordActionId :: string where
  "addWordActionId = ''spellchecker.addWord''"

definition correctActionId :: string where
  "correctActionId = ''spellchecker.correct''"

definition buildCustomEditorId :: "string \<Rightarrow> string" where
  "buildCustomEditorId actionId = ''vs.editor.ICodeEditor:1:'' @ actionId"

definition defaultMessageBuilder :: "messageType \<Rightarrow> string \<Rightarrow> xrange \<Rightarrow> string" where
  "defaultMessageBuilder type w rng =
     (case type of
        HoverMessage \<Rightarrow> [CHR 0x22] @ w @ [CHR 0x22] @ '' is misspelled.''
      | Ignore \<Rightarrow> ''Ignore '' @ [CHR 0x22] @ w @ [CHR 0x22]
      | AddWord \<Rightarrow> ''Add '' @ [CHR 0x22] @ w @ [CHR 0x22] @ '' to Dictionary''
      | ApplySuggestion \<Rightarrow> ''Replace with '' @ [CHR 0x22] @ w @ [CHR 0x22])"

text \<open>The defaults of the destructuring at the head of \<open>getSpellchecker\<close>.\<close>

definition theMessageBuilder :: "'d options \<Rightarrow> messageType \<Rightarrow> string \<Rightarrow> xrange \<Rightarrow> string" where
  "theMessageBuilder opts =
     (case messageBuilder opts of None \<Rightarrow> defaultMessageBuilder | Some f \<Rightarrow> f)"

definition theTokenize :: "'d options \<Rightarrow> string \<Rightarrow> token list" where
  "theTokenize opts = (case tokenize opts of None \<Rightarrow> defaultTokenize | Some f \<Rightarrow> f)"

definition theLanguageSelector :: "'d options \<Rightarrow> string" where
  "theLanguageSelector opts = (case languageSelector opts of None \<Rightarrow> ''*'' | Some l \<Rightarrow> l)"

subsection \<open>The session and the host\<close>

text \<open>
  The host's text model: its \<open>uri\<close> and the text \<open>getValue()\<close> returns.
\<close>

record model =
  uri :: string
  getValue :: string

datatype registration = EditorAction string | CodeActionProviderRegistration string

text \<open>
  Every call that leaves the session is recorded, in order: the registrations made with
  the host, the calls of the embedder's callbacks and of the message builder, the
  mutations of the host's marker store and the release of a registration.
\<close>

datatype call =
    AddAction string
  | RegisterCodeActionProvider string
  | CallCheck string
  | CallSuggest string
  | CallMessageBuilder messageType string
  | SetModelMarkers string "marker list"
  | RemoveAllMarkers
  | DisposeRegistration registration

text \<open>
  The variables the closures of \<open>getSpellchecker\<close> share (\<open>disposed\<close>, \<open>disposables\<close>),
  the part of the host they read and write (the editor's model; the marker store of the
  owner \<open>'spellchecker'\<close>, one marker list per model uri), the embedder's state and the
  record of calls.
\<close>

record 'd session =
  disposed :: bool
  disposables :: "registration list"
  editorModel :: "model option"
  modelMarkers :: "string \<Rightarrow> marker list"
  ext :: 'd
  trace :: "call list"

subsection \<open>\<open>process\<close>\<close>

text \<open>
  \<^verbatim>\<open>const lines = text.split('\n')\<close>
\<close>

fun splitFrom :: "string \<Rightarrow> string \<Rightarrow> string list" where
  "splitFrom cur [] = [rev cur]"
| "splitFrom cur (c # cs) =
     (if c = CHR 0x0A then rev cur # splitFrom [] cs else splitFrom (c # cur) cs)"

definition splitLines :: "string \<Rightarrow> string list" where
  "splitLines text = splitFrom [] text"

text \<open>
  The marker pushed for a token the checker rejects (the object literal of
  \<open>marks.push\<close>, with \<open>startColumn\<close>, \<open>endColumn\<close> and \<open>range\<close> as the loop body computes them).
  \<open>opts.severity || monaco.MarkerSeverity.Warning\<close>: every member of the enumeration is
  truthy, so the default is taken exactly when the option is absent.
\<close>

definition newMarker :: "'d options \<Rightarrow> nat \<Rightarrow> token \<Rightarrow> marker" where
  "newMarker opts lineIndex t =
     (let startColumn = pos t + 1;
          endColumn = startColumn + int (length (word t));
          rng = \<lparr>startLineNumber = int lineIndex + 1, startColumn = startColumn,
                 endLineNumber = int lineIndex + 1, endColumn = endColumn\<rparr>
      in \<lparr>startLineNumber = int lineIndex + 1, startColumn = startColumn,
          endLineNumber = int lineIndex + 1, endColumn = endColumn,
          code = word t,
          message = theMessageBuilder opts HoverMessage (word t) rng,
          severity = (case optSeverity opts of None \<Rightarrow> Warning | Some sv \<Rightarrow> sv)\<rparr>)"

text \<open>\<^verbatim>\<open>if (!isCorrect) { ... marks.push({ ... }) }\<close>\<close>

definition markToken ::
  "'d options \<Rightarrow> nat \<Rightarrow> token \<Rightarrow> bool \<Rightarrow> marker list \<Rightarrow> 'd session \<Rightarrow> marker list \<times> 'd session" where
  "markToken opts lineIndex t isCorrect marks s =
     (if \<not> isCorrect
      then (marks @ [newMarker opts lineIndex t],
            s\<lparr>trace := trace s @ [CallMessageBuilder HoverMessage (word t)]\<rparr>)
      else (marks, s))"

text \<open>
  A \<open>process()\<close> call suspended at \<^verbatim>\<open>await result\<close>: its local variables, and how the awaited
  promise settles (\<open>Some b\<close>: it fulfils with \<open>b\<close>; \<open>None\<close>: it rejects). \<open>frLines\<close> are the
  lines after the current one, \<open>frWords\<close> the tokens of the current line after the awaited one.
\<close>

record frame =
  frModel :: model
  frLines :: "string list"
  frLineIndex :: nat
  frToken :: token
  frWords :: "token list"
  frMarks :: "marker list"
  frPromise :: "bool option"

text \<open>
  How a call of \<open>process()\<close> leaves the run-to-completion step it is in: it reached
  \<open>setModelMarkers\<close> (\<open>Finished\<close>), it returned early (\<open>Returned\<close>: disposed, or no model),
  the checker threw or its promise rejected (\<open>Threw\<close>), or it awaits a promise.
\<close>

datatype outcome = Finished | Returned | Threw | Suspended frame

datatype 'd wordsResult =
    WordsDone "marker list" "'d session"
  | WordsReturned "'d session"
  | WordsThrew "'d session"
  | WordsAwait "bool option" token "token list" "marker list" "'d session"

text \<open>
  The inner loop, \<^verbatim>\<open>for (const { word, pos } of words)\<close>, from a token on. A checker that
  returns a boolean does not suspend the call; any other result is awaited.
\<close>

fun scanWords ::
  "'d options \<Rightarrow> nat \<Rightarrow> token list \<Rightarrow> marker list \<Rightarrow> 'd session \<Rightarrow> 'd wordsResult" where
  "scanWords opts lineIndex [] marks s = WordsDone marks s"
| "scanWords opts lineIndex (t # ts) marks s =
     (case check opts (ext s) (word t) of
        (result, d) \<Rightarrow>
          (let s1 = s\<lparr>ext := d, trace := trace s @ [CallCheck (word t)]\<rparr> in
           case result of
             Throws \<Rightarrow> WordsThrew s1
           | Rejects \<Rightarrow> WordsAwait None t ts marks s1
           | Resolves b \<Rightarrow> WordsAwait (Some b) t ts marks s1
           | Returns isCorrect \<Rightarrow>
               if disposed s1 then WordsReturned s1
               else (case markToken opts lineIndex t isCorrect marks s1 of
                       (marks', s2) \<Rightarrow> scanWords opts lineIndex ts marks' s2)))"

text \<open>The rest of the inner loop once the awaited promise has settled.\<close>

definition resumeWords ::
  "'d options \<Rightarrow> nat \<Rightarrow> bool option \<Rightarrow> token \<Rightarrow> token list \<Rightarrow> marker list \<Rightarrow> 'd session
     \<Rightarrow> 'd wordsResult" where
  "resumeWords opts lineIndex promise t ts marks s =
     (case promise of
        None \<Rightarrow> WordsThrew s
      | Some isCorrect \<Rightarrow>
          if disposed s then WordsReturned s
          else (case markToken opts lineIndex t isCorrect marks s of
                  (marks', s2) \<Rightarrow> scanWords opts lineIndex ts marks' s2))"

text \<open>\<^verbatim>\<open>monaco.editor.setModelMarkers(model, owner, marks)\<close>\<close>

definition setModelMarkers :: "model \<Rightarrow> marker list \<Rightarrow> 'd session \<Rightarrow> 'd session" where
  "setModelMarkers m marks s =
     s\<lparr>modelMarkers := (modelMarkers s)(uri m := marks),
       trace := trace s @ [SetModelMarkers (uri m) marks]\<rparr>"

text \<open>
  The outer loop, \<^verbatim>\<open>for (let lineIndex = 0; lineIndex < lines.length; lineIndex++)\<close>, from
  \<open>lineIndex\<close> on; the list holds \<open>lines[lineIndex]\<close>, \<open>lines[lineIndex + 1]\<close>, ... The loop
  is left for the publication when the lines are exhausted or by the \<open>break\<close>.
\<close>

fun scanLines ::
  "'d options \<Rightarrow> model \<Rightarrow> nat \<Rightarrow> string list \<Rightarrow> marker list \<Rightarrow> 'd session
     \<Rightarrow> outcome \<times> 'd session" where
  "scanLines opts m lineIndex [] marks s = (Finished, setModelMarkers m marks s)"
| "scanLines opts m lineIndex (l # ls) marks s =
     (if length marks > 500 then (Finished, setModelMarkers m marks s)
      else (case scanWords opts lineIndex (theTokenize opts l) marks s of
              WordsDone marks' s' \<Rightarrow> scanLines opts m (Suc lineIndex) ls marks' s'
            | WordsReturned s' \<Rightarrow> (Returned, s')
            | WordsThrew s' \<Rightarrow> (Threw, s')
            | WordsAwait promise t ts marks' s' \<Rightarrow>
                (Suspended \<lparr>frModel = m, frLines = ls, frLineIndex = lineIndex, frToken = t,
                            frWords = ts, frMarks = marks', frPromise = promise\<rparr>, s')))"

definition process :: "'d options \<Rightarrow> 'd session \<Rightarrow> outcome \<times> 'd session" where
  "process opts s =
     (if disposed s then (Returned, s)
      else (case editorModel s of
              None \<Rightarrow> (Returned, s)
            | Some m \<Rightarrow> scanLines opts m 0 (splitLines (getValue m)) [] s))"

text \<open>
  A suspended call continues when its promise has settled: the rest of the current line,
  then the lines after it.
\<close>

definition resume :: "'d options \<Rightarrow> frame \<Rightarrow> 'd session \<Rightarrow> outcome \<times> 'd session" where
  "resume opts fr s =
     (case resumeWords opts (frLineIndex fr) (frPromise fr) (frToken fr) (frWords fr)
             (frMarks fr) s of
        WordsDone marks' s' \<Rightarrow>
          scanLines opts (frModel fr) (Suc (frLineIndex fr)) (frLines fr) marks' s'
      | WordsReturned s' \<Rightarrow> (Returned, s')
      | WordsThrew s' \<Rightarrow> (Threw, s')
      | WordsAwait promise t ts marks' s' \<Rightarrow>
          (Suspended (fr\<lparr>frToken := t, frWords := ts, frMarks := marks',
                         frPromise := promise\<rparr>), s'))"

subsection \<open>The code action provider\<close>

datatype argument = CorrectionArg marker string | WordArg string

datatype command = Command (commandId: string) (commandTitle: string)
  (arguments: "argument list")

record codeAction =
  title :: string
  command :: command
  ranges :: "marker list"
  kind :: string

text \<open>
  What the promise of \<open>provideCodeActions\<close> settles to: \<open>null\<close>, the object with the
  actions, or a rejection (the suggester threw or its promise rejected).
\<close>

datatype provided = Null | Actions "codeAction list" | ProviderRejected

definition suggestionAction :: "'d options \<Rightarrow> marker \<Rightarrow> string \<Rightarrow> codeAction" where
  "suggestionAction opts mk suggestion =
     \<lparr>title = suggestion,
      command = Command (buildCustomEditorId correctActionId)
                  (theMessageBuilder opts ApplySuggestion suggestion (xrange.truncate mk))
                  [CorrectionArg mk suggestion],
      ranges = [mk],
      kind = ''quickfix''\<rparr>"

definition ignoreAction :: "'d options \<Rightarrow> marker \<Rightarrow> string \<Rightarrow> codeAction" where
  "ignoreAction opts mk w =
     (let title = theMessageBuilder opts Ignore w (xrange.truncate mk)
      in \<lparr>title = title,
          command = Command (buildCustomEditorId ignoreActionId) title [WordArg w],
          ranges = [mk],
          kind = ''quickfix''\<rparr>)"

definition addWordAction :: "'d options \<Rightarrow> marker \<Rightarrow> string \<Rightarrow> codeAction" where
  "addWordAction opts mk w =
     (let title = theMessageBuilder opts AddWord w (xrange.truncate mk)
      in \<lparr>title = title,
          command = Command (buildCustomEditorId addWordActionId) title [WordArg w],
          ranges = [mk],
          kind = ''quickfix''\<rparr>)"

text \<open>
  \<open>provideCodeActions(model, range, _context, token)\<close>. The host's
  \<open>Range.prototype.containsRange\<close>, applied with the marker as \<open>this\<close>, is the
  parameter \<open>containsRange\<close>; \<open>cancelled\<close> is what \<open>token.isCancellationRequested\<close> reads
  once the suggester's result has been awaited. Nothing the session shares is read after
  that \<open>await\<close>, so the query is one step.
\<close>

definition provideCodeActions ::
  "(marker \<Rightarrow> xrange \<Rightarrow> bool) \<Rightarrow> 'd options \<Rightarrow> model \<Rightarrow> xrange \<Rightarrow> bool \<Rightarrow> 'd session
     \<Rightarrow> provided \<times> 'd session" where
  "provideCodeActions containsRange opts m rng cancelled s =
     (if disposed s then (Null, s)
      else (case find (\<lambda>mk. containsRange mk rng) (modelMarkers s (uri m)) of
              None \<Rightarrow> (Null, s)
            | Some mk \<Rightarrow>
                (let w = code mk in
                 case suggest opts (ext s) w of
                   (result, d) \<Rightarrow>
                     (let s1 = s\<lparr>ext := d, trace := trace s @ [CallSuggest w]\<rparr> in
                      case (case result of Returns l \<Rightarrow> Some l | Resolves l \<Rightarrow> Some l
                                | Throws \<Rightarrow> None | Rejects \<Rightarrow> None) of
                        None \<Rightarrow> (ProviderRejected, s1)
                      | Some list \<Rightarrow>
                          if cancelled then (Null, s1)
                          else
                            (Actions
                               (map (suggestionAction opts mk) list
                                @ (if ignore opts \<noteq> None then [ignoreAction opts mk w] else [])
                                @ (if addWord opts \<noteq> None then [addWordAction opts mk w] else [])),
                             s1\<lparr>trace := trace s1
                                  @ map (CallMessageBuilder ApplySuggestion) list
                                  @ (if ignore opts \<noteq> None then [CallMessageBuilder Ignore w] else [])
                                  @ (if addWord opts \<noteq> None then [CallMessageBuilder AddWord w] else [])\<rparr>)))))"

subsection \<open>Construction and disposal\<close>

text \<open>
  \<open>getSpellchecker\<close> registers the correction action and the provider, then the ignore
  and the add-word action when the capability is configured. It finds the host as it is:
  the editor's model, the marker store and the embedder's state are arguments. The \<open>run\<close>
  handlers of the three actions are the host's to call; what they do to the session is a
  change of the document, a change of the embedder's state, and a call of \<open>process()\<close>.
\<close>

definition registrations :: "'d options \<Rightarrow> registration list" where
  "registrations opts =
     [EditorAction correctActionId,
      CodeActionProviderRegistration (theLanguageSelector opts)]
     @ (if ignore opts \<noteq> None then [EditorAction ignoreActionId] else [])
     @ (if addWord opts \<noteq> None then [EditorAction addWordActionId] else [])"

definition getSpellchecker ::
  "'d options \<Rightarrow> model option \<Rightarrow> (string \<Rightarrow> marker list) \<Rightarrow> 'd \<Rightarrow> 'd session" where
  "getSpellchecker opts m store d =
     \<lparr>disposed = False,
      disposables = registrations opts,
      editorModel = m,
      modelMarkers = store,
      ext = d,
      trace = [AddAction correctActionId,
               RegisterCodeActionProvider (theLanguageSelector opts)]
              @ (if ignore opts \<noteq> None then [AddAction ignoreActionId] else [])
              @ (if addWord opts \<noteq> None then [AddAction addWordActionId] else [])\<rparr>"

text \<open>
  \<^verbatim>\<open>monaco.editor.removeAllMarkers(owner); disposables.forEach(d => d.dispose()); disposables.length = 0; disposed = true\<close>
\<close>

definition dispose :: "'d session \<Rightarrow> 'd session" where
  "dispose s =
     s\<lparr>modelMarkers := (\<lambda>u. []),
       trace := trace s @ [RemoveAllMarkers] @ map DisposeRegistration (disposables s),
       disposables := [],
       disposed := True\<rparr>"

subsection \<open>Runs of a session\<close>

text \<open>
  The host's event loop runs one step at a time. A step starts a \<open>process()\<close> call and
  runs it to its first suspension, settles the promise a suspended call awaits and runs
  that call to its next suspension, disposes the session, answers a code action query,
  changes the editor's model, or changes the embedder's state. The calls of \<open>process()\<close>
  that are suspended wait in a pool beside the session.
\<close>

datatype 'd event =
    DoProcess
  | DoSettle nat
  | DoDispose
  | DoProvide model xrange bool
  | DoSetModel "model option"
  | DoEmbedder "'d \<Rightarrow> 'd"

definition dropAt :: "nat \<Rightarrow> 'a list \<Rightarrow> 'a list" where
  "dropAt i xs = take i xs @ drop (Suc i) xs"

fun step ::
  "(marker \<Rightarrow> xrange \<Rightarrow> bool) \<Rightarrow> 'd options \<Rightarrow> 'd event \<Rightarrow> 'd session \<times> frame list
     \<Rightarrow> 'd session \<times> frame list" where
  "step cr opts DoProcess (s, pool) =
     (case process opts s of
        (Suspended fr, s') \<Rightarrow> (s', pool @ [fr])
      | (_, s') \<Rightarrow> (s', pool))"
| "step cr opts (DoSettle i) (s, pool) =
     (if i < length pool
      then (case resume opts (pool ! i) s of
              (Suspended fr, s') \<Rightarrow> (s', pool[i := fr])
            | (_, s') \<Rightarrow> (s', dropAt i pool))
      else (s, pool))"
| "step cr opts DoDispose (s, pool) = (dispose s, pool)"
| "step cr opts (DoProvide m rng cancelled) (s, pool) =
     (snd (provideCodeActions cr opts m rng cancelled s), pool)"
| "step cr opts (DoSetModel m) (s, pool) = (s\<lparr>editorModel := m\<rparr>, pool)"
| "step cr opts (DoEmbedder f) (s, pool) = (s\<lparr>ext := f (ext s)\<rparr>, pool)"

fun run ::
  "(marker \<Rightarrow> xrange \<Rightarrow> bool) \<Rightarrow> 'd options \<Rightarrow> 'd event list \<Rightarrow> 'd session \<times> frame list
     \<Rightarrow> 'd session \<times> frame list" where
  "run cr opts [] w = w"
| "run cr opts (e # es) w = run cr opts es (step cr opts e w)"

text \<open>
  One call of \<open>process()\<close> followed through its suspensions: while it awaits a promise
  the events of the next batch happen, then the promise settles and the call goes on.
  The call is over when it is no longer suspended.
\<close>

fun follow ::
  "(marker \<Rightarrow> xrange \<Rightarrow> bool) \<Rightarrow> 'd options \<Rightarrow> 'd event list list
     \<Rightarrow> outcome \<times> 'd session \<times> frame list \<Rightarrow> outcome \<times> 'd session \<times> frame list" where
  "follow cr opts [] r = r"
| "follow cr opts (es # ess) (Suspended fr, w) =
     (case run cr opts es w of
        (s, pool) \<Rightarrow> (case resume opts fr s of (out, s') \<Rightarrow> follow cr opts ess (out, s', pool)))"
| "follow cr opts (es # ess) (out, w) = (out, w)"

definition processCall ::
  "(marker \<Rightarrow> xrange \<Rightarrow> bool) \<Rightarrow> 'd options \<Rightarrow> 'd event list list \<Rightarrow> 'd session \<times> frame list
     \<Rightarrow> outcome \<times> 'd session \<times> frame list" where
  "processCall cr opts ess w =
     (case w of (s, pool) \<Rightarrow>
        (case process opts s of (out, s') \<Rightarrow> follow cr opts ess (out, s', pool)))"

section \<open>Notions for the properties\<close>

subsection \<open>Reading the record of calls\<close>

text \<open>The registrations released, and the marker lists published, in the order of the calls.\<close>

fun released :: "call list \<Rightarrow> registration list" where
  "released [] = []"
| "released (DisposeRegistration r # cs) = r # released cs"
| "released (c # cs) = released cs"

fun publications :: "call list \<Rightarrow> (string \<times> marker list) list" where
  "publications [] = []"
| "publications (SetModelMarkers u marks # cs) = (u, marks) # publications cs"
| "publications (c # cs) = publications cs"

text \<open>
  The calls a step other than \<open>dispose()\<close> can make: of the checker, of the suggester, of
  the message builder (for the ignore and add-word labels only when the capability is
  configured) and of \<open>setModelMarkers\<close>.
\<close>

fun sessionCall :: "'d options \<Rightarrow> call \<Rightarrow> bool" where
  "sessionCall opts (CallCheck w) = True"
| "sessionCall opts (CallSuggest w) = True"
| "sessionCall opts (CallMessageBuilder Ignore w) = (ignore opts \<noteq> None)"
| "sessionCall opts (CallMessageBuilder AddWord w) = (addWord opts \<noteq> None)"
| "sessionCall opts (CallMessageBuilder k w) = True"
| "sessionCall opts (SetModelMarkers u marks) = True"
| "sessionCall opts c = False"

definition calm :: "'d options \<Rightarrow> 'd session \<Rightarrow> 'd session \<Rightarrow> bool" where
  "calm opts s s' \<longleftrightarrow>
     disposed s' = disposed s \<and> disposables s' = disposables s
     \<and> (\<exists>tr. trace s' = trace s @ tr \<and> list_all (sessionCall opts) tr)"

fun wordsSession :: "'d wordsResult \<Rightarrow> 'd session" where
  "wordsSession (WordsDone marks s) = s"
| "wordsSession (WordsReturned s) = s"
| "wordsSession (WordsThrew s) = s"
| "wordsSession (WordsAwait p t ts marks s) = s"

subsection \<open>Invariants of a run\<close>

text \<open>
  The session as \<open>dispose()\<close> leaves it, seen from a session \<open>s0\<close>: the flag is set, the
  marker store is empty and nothing has been published since \<open>s0\<close>.
\<close>

definition disposedAt :: "'d session \<Rightarrow> 'd session \<Rightarrow> bool" where
  "disposedAt s0 s \<longleftrightarrow>
     disposed s \<and> (\<forall>u. modelMarkers s u = [])
     \<and> publications (trace s) = publications (trace s0)"

text \<open>
  No registration is released twice: the registrations released so far and those the
  session still holds are all different.
\<close>

definition releasedOnce :: "'d session \<Rightarrow> bool" where
  "releasedOnce s \<longleftrightarrow> distinct (released (trace s) @ disposables s)"

text \<open>
  No trace of the ignore capability: its label was never built, its action was never
  registered, and the session holds no registration of it.
\<close>

definition ignoreFree :: "'d session \<Rightarrow> bool" where
  "ignoreFree s \<longleftrightarrow>
     (\<forall>w. CallMessageBuilder Ignore w \<notin> set (trace s))
     \<and> AddAction ignoreActionId \<notin> set (trace s)
     \<and> EditorAction ignoreActionId \<notin> set (disposables s)"

subsection \<open>A checker with a fixed verdict\<close>

text \<open>
  The verdict a checker's answer carries, if it carries one. A checker is deterministic
  when the verdict on a word does not depend on the embedder's state: \<open>judges opts v\<close>,
  with \<open>v w = None\<close> for a word on which it throws or rejects. Whether it answers at once or
  through a promise may still vary from call to call.
\<close>

definition verdict :: "bool returned \<Rightarrow> bool option" where
  "verdict r = (case r of Returns b \<Rightarrow> Some b | Resolves b \<Rightarrow> Some b
                | Throws \<Rightarrow> None | Rejects \<Rightarrow> None)"

definition judges :: "'d options \<Rightarrow> (string \<Rightarrow> bool option) \<Rightarrow> bool" where
  "judges opts v \<longleftrightarrow> (\<forall>d w. verdict (fst (check opts d w)) = v w)"

definition misspelled :: "(string \<Rightarrow> bool option) \<Rightarrow> token \<Rightarrow> bool" where
  "misspelled v t \<longleftrightarrow> v (word t) = Some False"

text \<open>
  Under such a checker: the markers of the misspelled tokens among \<open>ts\<close> on line \<open>li\<close>, and
  the calls the loop body makes for a token (after the check, and in all).
\<close>

definition tokensMarks ::
  "'d options \<Rightarrow> (string \<Rightarrow> bool option) \<Rightarrow> nat \<Rightarrow> token list \<Rightarrow> marker list" where
  "tokensMarks opts v li ts = map (newMarker opts li) (filter (misspelled v) ts)"

definition afterCalls :: "(string \<Rightarrow> bool option) \<Rightarrow> token \<Rightarrow> call list" where
  "afterCalls v t =
     (if misspelled v t then [CallMessageBuilder HoverMessage (word t)] else [])"

definition tokensCalls :: "(string \<Rightarrow> bool option) \<Rightarrow> token list \<Rightarrow> call list" where
  "tokensCalls v ts = concat (map (\<lambda>t. CallCheck (word t) # afterCalls v t) ts)"

text \<open>
  The markers the outer loop ends with, and the calls it makes on the way, when it is
  entered at line \<open>li\<close> with \<open>marks\<close> and no call is abandoned.
\<close>

fun linesMarks ::
  "'d options \<Rightarrow> (string \<Rightarrow> bool option) \<Rightarrow> nat \<Rightarrow> string list \<Rightarrow> marker list
     \<Rightarrow> marker list" where
  "linesMarks opts v li [] marks = marks"
| "linesMarks opts v li (l # ls) marks =
     (if length marks > 500 then marks
      else linesMarks opts v (Suc li) ls (marks @ tokensMarks opts v li (theTokenize opts l)))"

fun linesCalls ::
  "'d options \<Rightarrow> (string \<Rightarrow> bool option) \<Rightarrow> nat \<Rightarrow> string list \<Rightarrow> marker list
     \<Rightarrow> call list" where
  "linesCalls opts v li [] marks = []"
| "linesCalls opts v li (l # ls) marks =
     (if length marks > 500 then []
      else tokensCalls v (theTokenize opts l)
           @ linesCalls opts v (Suc li) ls (marks @ tokensMarks opts v li (theTokenize opts l)))"

text \<open>What a suspended call will publish, and the calls it will make before.\<close>

definition frameMarks :: "'d options \<Rightarrow> (string \<Rightarrow> bool option) \<Rightarrow> frame \<Rightarrow> marker list" where
  "frameMarks opts v fr =
     linesMarks opts v (Suc (frLineIndex fr)) (frLines fr)
       (frMarks fr @ tokensMarks opts v (frLineIndex fr) (frToken fr # frWords fr))"

definition frameCalls :: "'d options \<Rightarrow> (string \<Rightarrow> bool option) \<Rightarrow> frame \<Rightarrow> call list" where
  "frameCalls opts v fr =
     afterCalls v (frToken fr) @ tokensCalls v (frWords fr)
     @ linesCalls opts v (Suc (frLineIndex fr)) (frLines fr)
         (frMarks fr @ tokensMarks opts v (frLineIndex fr) (frToken fr # frWords fr))"

text \<open>
  A call is on course for publishing \<open>marks\<close> for the model \<open>m\<close> after the calls \<open>tr\<close>: it has
  done so, or it is suspended and what remains of it leads there.
\<close>

definition onCourse ::
  "'d options \<Rightarrow> (string \<Rightarrow> bool option) \<Rightarrow> model \<Rightarrow> marker list \<Rightarrow> call list
     \<Rightarrow> outcome \<Rightarrow> 'd session \<Rightarrow> bool" where
  "onCourse opts v m marks tr out s \<longleftrightarrow>
     (case out of
        Finished \<Rightarrow>
          modelMarkers s (uri m) = marks \<and> trace s = tr @ [SetModelMarkers (uri m) marks]
      | Suspended fr \<Rightarrow>
          frModel fr = m \<and> frPromise fr = v (word (frToken fr))
          \<and> frameMarks opts v fr = marks \<and> trace s @ frameCalls opts v fr = tr
      | Returned \<Rightarrow> True
      | Threw \<Rightarrow> True)"

definition heading ::
  "'d options \<Rightarrow> (string \<Rightarrow> bool option) \<Rightarrow> model \<Rightarrow> marker list \<Rightarrow> outcome \<Rightarrow> 'd session
     \<Rightarrow> bool" where
  "heading opts v m marks out s \<longleftrightarrow>
     (case out of
        Finished \<Rightarrow> modelMarkers s (uri m) = marks
      | Suspended fr \<Rightarrow>
          frModel fr = m \<and> frPromise fr = v (word (frToken fr))
          \<and> frameMarks opts v fr = marks
      | Returned \<Rightarrow> True
      | Threw \<Rightarrow> True)"

text \<open>The inner loop: where it stands when it stops.\<close>

fun wordsOnCourse ::
  "'d options \<Rightarrow> (string \<Rightarrow> bool option) \<Rightarrow> nat \<Rightarrow> marker list \<Rightarrow> call list
     \<Rightarrow> 'd wordsResult \<Rightarrow> bool" where
  "wordsOnCourse opts v li marks tr (WordsDone marks' s') \<longleftrightarrow>
     marks' = marks \<and> trace s' = tr"
| "wordsOnCourse opts v li marks tr (WordsAwait p t ts marks' s') \<longleftrightarrow>
     p = v (word t) \<and> marks' @ tokensMarks opts v li (t # ts) = marks
     \<and> trace s' @ afterCalls v t @ tokensCalls v ts = tr"
| "wordsOnCourse opts v li marks tr r \<longleftrightarrow> True"

subsection \<open>The tokens of a document\<close>

text \<open>
  The tokens of lines paired with their indices, each token with the index of its line, in
  the order of the scan; the tokens of a document; those the classification \<open>correct\<close>
  rejects.
\<close>

definition indexedTokens :: "'d options \<Rightarrow> (nat \<times> string) list \<Rightarrow> (nat \<times> token) list" where
  "indexedTokens opts ils = concat (map (\<lambda>(li, l). map (Pair li) (theTokenize opts l)) ils)"

definition docTokens :: "'d options \<Rightarrow> string \<Rightarrow> (nat \<times> token) list" where
  "docTokens opts tx = indexedTokens opts (enumerate 0 (splitLines tx))"

definition misspelledTokens :: "'d options \<Rightarrow> (string \<Rightarrow> bool) \<Rightarrow> string \<Rightarrow> (nat \<times> token) list" where
  "misspelledTokens opts correct tx = filter (\<lambda>(li, t). \<not> correct (word t)) (docTokens opts tx)"

text \<open>
  The calls the scan makes for a token under that classification: the check, and the
  message builder when the token is rejected.
\<close>

definition scanCalls :: "(string \<Rightarrow> bool) \<Rightarrow> (nat \<times> token) list \<Rightarrow> call list" where
  "scanCalls correct its =
     concat (map (\<lambda>(li, t). CallCheck (word t)
                    # (if correct (word t) then [] else [CallMessageBuilder HoverMessage (word t)]))
               its)"

subsection \<open>A call that advances\<close>

text \<open>
  The tokens a suspended call has still to deal with: the one it awaits, the rest of its
  line and those of the lines after.
\<close>

definition remaining :: "'d options \<Rightarrow> frame \<Rightarrow> nat" where
  "remaining opts fr =
     Suc (length (frWords fr)
          + length (indexedTokens opts (enumerate (Suc (frLineIndex fr)) (frLines fr))))"

text \<open>
  A call advances: it has published, or it is suspended on a promise that will fulfil with
  at most \<open>n\<close> tokens to deal with, in a session that is not disposed.
\<close>

definition advancing :: "'d options \<Rightarrow> nat \<Rightarrow> outcome \<Rightarrow> 'd session \<Rightarrow> bool" where
  "advancing opts n out s \<longleftrightarrow>
     \<not> disposed s
     \<and> (case out of
          Finished \<Rightarrow> True
        | Suspended fr \<Rightarrow> frPromise fr \<noteq> None \<and> remaining opts fr \<le> n
        | Returned \<Rightarrow> False
        | Threw \<Rightarrow> False)"

fun wordsAdvancing :: "nat \<Rightarrow> 'd wordsResult \<Rightarrow> bool" where
  "wordsAdvancing n (WordsDone marks s) \<longleftrightarrow> \<not> disposed s"
| "wordsAdvancing n (WordsAwait p t ts marks s) \<longleftrightarrow> \<not> disposed s \<and> p \<noteq> None \<and> Suc (length ts) \<le> n"
| "wordsAdvancing n r \<longleftrightarrow> False"

subsection \<open>Where published markers come from\<close>

text \<open>
  The markers that indexed tokens can give rise to, and those a suspended call can still
  publish: the ones it holds, and those of the tokens it has not dealt with.
\<close>

definition markersOf :: "'d options \<Rightarrow> (nat \<times> token) list \<Rightarrow> marker set" where
  "markersOf opts its = (\<lambda>(li, t). newMarker opts li t) ` set its"

definition frameMarkers :: "'d options \<Rightarrow> frame \<Rightarrow> marker set" where
  "frameMarkers opts fr =
     set (frMarks fr)
     \<union> markersOf opts (map (Pair (frLineIndex fr)) (frToken fr # frWords fr))
     \<union> markersOf opts (indexedTokens opts (enumerate (Suc (frLineIndex fr)) (frLines fr)))"

definition within :: "'d options \<Rightarrow> model \<Rightarrow> marker set \<Rightarrow> outcome \<Rightarrow> 'd session \<Rightarrow> bool" where
  "within opts m M out s \<longleftrightarrow>
     (case out of
        Finished \<Rightarrow> set (modelMarkers s (uri m)) \<subseteq> M
      | Suspended fr \<Rightarrow> frModel fr = m \<and> frameMarkers opts fr \<subseteq> M
      | Returned \<Rightarrow> True
      | Threw \<Rightarrow> True)"

fun wordsWithin :: "'d options \<Rightarrow> nat \<Rightarrow> marker set \<Rightarrow> 'd wordsResult \<Rightarrow> bool" where
  "wordsWithin opts li M (WordsDone marks s) \<longleftrightarrow> set marks \<subseteq> M"
| "wordsWithin opts li M (WordsAwait p t ts marks s) \<longleftrightarrow>
     set marks \<union> markersOf opts (map (Pair li) (t # ts)) \<subseteq> M"
| "wordsWithin opts li M r \<longleftrightarrow> True"

subsection \<open>A call that publishes\<close>

text \<open>
  Since the record of calls read \<open>t0\<close>, a call for the model \<open>m\<close> has only added to it; and
  if it has completed, the last call recorded is its \<open>setModelMarkers\<close>, with the list the
  marker store now holds for \<open>m\<close>.
\<close>

definition publishing :: "model \<Rightarrow> call list \<Rightarrow> outcome \<Rightarrow> 'd session \<Rightarrow> bool" where
  "publishing m t0 out s \<longleftrightarrow>
     (\<exists>tr. trace s = t0 @ tr)
     \<and> (case out of
          Finished \<Rightarrow>
            (\<exists>tr. trace s = t0 @ tr @ [SetModelMarkers (uri m) (modelMarkers s (uri m))])
        | Suspended fr \<Rightarrow> frModel fr = m
        | Returned \<Rightarrow> True
        | Threw \<Rightarrow> True)"

section \<open>Examples\<close>

subsection \<open>A session with both capabilities\<close>

text \<open>
  Modelled from the spec: the host's \<open>Range.prototype.containsRange\<close> is not part of the
  repository. "Find the first diagnostic whose range contains the query range" is read
  as containment of the positions, a position being a line and a column. The session
  takes the test as a parameter; this one serves the examples.
\<close>

definition containsRange :: "marker \<Rightarrow> xrange \<Rightarrow> bool" where
  "containsRange mk rng \<longleftrightarrow>
     (startLineNumber mk < startLineNumber rng
        \<or> startLineNumber mk = startLineNumber rng \<and> startColumn mk \<le> startColumn rng)
     \<and> (endLineNumber rng < endLineNumber mk
        \<or> endLineNumber rng = endLineNumber mk \<and> endColumn rng \<le> endColumn mk)"

text \<open>
  An embedder whose state is its list of accepted words. Its checker answers at once for
  words of two letters and through a promise for longer ones.
\<close>

definition exampleCheck :: "string list \<Rightarrow> string \<Rightarrow> bool returned \<times> string list" where
  "exampleCheck d w =
     (let ok = (w \<in> set d \<or> w \<in> set [''cat'', ''is'', ''the'']) in
      (if length w < 3 then Returns ok else Resolves ok, d))"

definition exampleOptions :: "string list options" where
  "exampleOptions =
     \<lparr>optSeverity = None, languageSelector = None, tokenize = None,
      check = exampleCheck,
      suggest = (\<lambda>d w. (Returns [''the'', ''tea''], d)),
      ignore = Some (\<lambda>w d. w # d),
      addWord = Some (\<lambda>w d. w # d),
      messageBuilder = None\<rparr>"

definition exampleModel :: model where
  "exampleModel = \<lparr>uri = ''inmemory://model/1'', getValue = ''teh cat'' @ [CHR 0x0A] @ ''is hrre''\<rparr>"

definition exampleSession :: "string list session" where
  "exampleSession = getSpellchecker exampleOptions (Some exampleModel) (\<lambda>u. []) []"

text \<open>The call of \<open>process()\<close> that the example session suspends first.\<close>

definition exampleFrame :: frame where
  "exampleFrame =
     \<lparr>frModel = exampleModel, frLines = [''is hrre''], frLineIndex = 0,
      frToken = \<lparr>word = ''teh'', pos = 0\<rparr>, frWords = [\<lparr>word = ''cat'', pos = 4\<rparr>],
      frMarks = [], frPromise = Some False\<rparr>"

definition exampleNoIgnore :: "string list options" where
  "exampleNoIgnore = exampleOptions\<lparr>ignore := None\<rparr>"

definition exampleQuery :: xrange where
  "exampleQuery = \<lparr>startLineNumber = 1, startColumn = 2, endLineNumber = 1, endColumn = 2\<rparr>"

text \<open>
  A call of \<open>process()\<close> on the example document and the settling of its three promises
  (\<open>teh\<close>, \<open>cat\<close>, \<open>hrre\<close>; \<open>is\<close> is answered at once).
\<close>

definition exampleEvents :: "string list event list" where
  "exampleEvents = [DoProcess, DoSettle 0, DoSettle 0, DoSettle 0]"

subsection \<open>A checker with a fixed dictionary\<close>

text \<open>
  A checker with a fixed dictionary. The embedder counts its calls and answers at once on
  every other call, through a promise otherwise.
\<close>

definition inDictionary :: "string \<Rightarrow> bool" where
  "inDictionary w \<longleftrightarrow> w \<in> set [''cat'', ''is'', ''the'']"

definition countingCheck :: "nat \<Rightarrow> string \<Rightarrow> bool returned \<times> nat" where
  "countingCheck d w =
     (if even d then Returns (inDictionary w) else Resolves (inDictionary w), Suc d)"

definition countingOptions :: "nat options" where
  "countingOptions =
     \<lparr>optSeverity = None, languageSelector = None, tokenize = None,
      check = countingCheck,
      suggest = (\<lambda>d w. (Resolves [], d)),
      ignore = None, addWord = None, messageBuilder = None\<rparr>"

definition countingSession :: "nat session" where
  "countingSession = getSpellchecker countingOptions (Some exampleModel) (\<lambda>u. []) 0"

text \<open>
  A document of 501 lines: 500 lines \<open>xx\<close> and a last line \<open>xx yy zz\<close>, 503 words none of
  which is in the dictionary.
\<close>

definition longText :: string where
  "longText = concat (replicate 500 (''xx'' @ [CHR 0x0A])) @ ''xx yy zz''"

definition longModel :: model where
  "longModel = \<lparr>uri = ''inmemory://model/2'', getValue = longText\<rparr>"

definition longSession :: "nat session" where
  "longSession = getSpellchecker countingOptions (Some longModel) (\<lambda>u. []) 0"

section \<open>Properties\<close>

subsection \<open>The default tokenizer\<close>

lemma defaultTokenizeFrom_length:
  "t \<in> set (defaultTokenizeFrom tx lastIndex) \<Longrightarrow> 2 \<le> length (word t)"
proof (induction tx lastIndex rule: defaultTokenizeFrom.induct)
  case (1 tx lastIndex)
  show ?case
  proof (cases "regexExec tx lastIndex")
    case None
    with "1.prems" show ?thesis by (subst (asm) defaultTokenizeFrom.simps) simp
  next
    case (Some m)
    obtain p len where m: "m = (p, len)" by (cases m)
    show ?thesis
      using "1.prems" "1.IH" [OF Some m [symmetric] refl] Some m
      by (subst (asm) defaultTokenizeFrom.simps) (auto simp: Let_def split: if_splits)
  qed
qed

text \<open>
  C7. On \<open>a cat, cat's toy\<close> the default tokenizer yields \<open>cat\<close> at 2, \<open>cat's\<close> at 7 and
  \<open>toy\<close> at 13, in this order; on the empty string it yields nothing; and on every text
  each token it yields has at least two characters, the shorter matches being dropped.
  The tokenizer is a total function, so it returns on every string.
\<close>

theorem defaultTokenize_tokens:
  "defaultTokenize (''a cat, cat'' @ [CHR 0x27] @ ''s toy'') =
     [\<lparr>word = ''cat'', pos = 2\<rparr>,
      \<lparr>word = ''cat'' @ [CHR 0x27] @ ''s'', pos = 7\<rparr>,
      \<lparr>word = ''toy'', pos = 13\<rparr>]
   \<and> defaultTokenize '''' = []
   \<and> (\<forall>t \<in> set (defaultTokenize tx). 2 \<le> length (word t))"
proof (intro conjI ballI)
  show "defaultTokenize (''a cat, cat'' @ [CHR 0x27] @ ''s toy'') =
     [\<lparr>word = ''cat'', pos = 2\<rparr>,
      \<lparr>word = ''cat'' @ [CHR 0x27] @ ''s'', pos = 7\<rparr>,
      \<lparr>word = ''toy'', pos = 13\<rparr>]"
    by code_simp
  show "defaultTokenize '''' = []"
    by code_simp
  show "2 \<le> length (word t)" if "t \<in> set (defaultTokenize tx)" for t
    using that unfolding defaultTokenize_def by (rule defaultTokenizeFrom_length)
qed

theorem defaultTokenize_tokens_witness:
  "\<lparr>word = ''be'', pos = 3\<rparr> \<in> set (defaultTokenize ''to be x'')
   \<and> 2 \<le> length (word \<lparr>word = ''be'', pos = 3\<rparr>)"
proof -
  have "defaultTokenize ''to be x'' = [\<lparr>word = ''to'', pos = 0\<rparr>, \<lparr>word = ''be'', pos = 3\<rparr>]"
    by code_simp
  then have "\<lparr>word = ''be'', pos = 3\<rparr> \<in> set (defaultTokenize ''to be x'')"
    by simp
  with defaultTokenize_tokens [of "''to be x''"] show ?thesis by blast
qed

subsection \<open>What a step does to the session\<close>

lemma calm_refl: "calm opts s s"
  by (simp add: calm_def)

lemma calm_trans: "calm opts s s' \<Longrightarrow> calm opts s' s'' \<Longrightarrow> calm opts s s''"
  unfolding calm_def by auto

lemma calm_check: "calm opts s (s\<lparr>ext := d, trace := trace s @ [CallCheck w]\<rparr>)"
  by (simp add: calm_def)

lemma calm_markToken: "markToken opts li t b marks s = (marks', s') \<Longrightarrow> calm opts s s'"
  unfolding calm_def markToken_def by (cases b) auto

lemma calm_setModelMarkers: "calm opts s (setModelMarkers m marks s)"
  by (simp add: calm_def setModelMarkers_def)

lemma scanWords_calm: "calm opts s (wordsSession (scanWords opts li ts marks s))"
proof (induction ts arbitrary: marks s)
  case Nil
  show ?case by (simp add: calm_refl)
next
  case (Cons t ts)
  obtain result d where c: "check opts (ext s) (word t) = (result, d)"
    by (cases "check opts (ext s) (word t)")
  define s1 where "s1 = s\<lparr>ext := d, trace := trace s @ [CallCheck (word t)]\<rparr>"
  have q1: "calm opts s s1" unfolding s1_def by (rule calm_check)
  show ?case
  proof (cases result)
    case (Returns b)
    obtain marks' s2 where m: "markToken opts li t b marks s1 = (marks', s2)"
      by (cases "markToken opts li t b marks s1")
    have "calm opts s1 s2" using m by (rule calm_markToken)
    with q1 have "calm opts s s2" by (rule calm_trans)
    then have "calm opts s (wordsSession (scanWords opts li ts marks' s2))"
      using Cons.IH calm_trans by blast
    then show ?thesis
      using c Returns m q1 by (simp add: s1_def [symmetric])
  qed (use c q1 in \<open>simp_all add: s1_def [symmetric]\<close>)
qed

lemma resumeWords_calm:
  "calm opts s (wordsSession (resumeWords opts li p t ts marks s))"
proof (cases p)
  case None
  then show ?thesis by (simp add: resumeWords_def calm_refl)
next
  case (Some b)
  obtain marks' s2 where m: "markToken opts li t b marks s = (marks', s2)"
    by (cases "markToken opts li t b marks s")
  have "calm opts s s2" using m by (rule calm_markToken)
  then have "calm opts s (wordsSession (scanWords opts li ts marks' s2))"
    using scanWords_calm calm_trans by blast
  then show ?thesis
    using Some m by (simp add: resumeWords_def calm_refl)
qed

lemma scanLines_calm: "calm opts s (snd (scanLines opts m li ls marks s))"
proof (induction ls arbitrary: li marks s)
  case Nil
  show ?case by (simp add: calm_setModelMarkers)
next
  case (Cons l ls)
  have w: "calm opts s (wordsSession (scanWords opts li (theTokenize opts l) marks s))"
    by (rule scanWords_calm)
  show ?case
  proof (cases "scanWords opts li (theTokenize opts l) marks s")
    case (WordsDone marks' s')
    with w have "calm opts s s'" by simp
    then have "calm opts s (snd (scanLines opts m (Suc li) ls marks' s'))"
      using Cons.IH calm_trans by blast
    then show ?thesis using WordsDone by (simp add: calm_setModelMarkers)
  qed (use w in \<open>simp_all add: calm_setModelMarkers\<close>)
qed

lemma process_calm: "calm opts s (snd (process opts s))"
  by (simp add: process_def calm_refl scanLines_calm split: option.splits)

lemma resume_calm: "calm opts s (snd (resume opts fr s))"
proof -
  let ?r = "resumeWords opts (frLineIndex fr) (frPromise fr) (frToken fr) (frWords fr)
              (frMarks fr) s"
  have w: "calm opts s (wordsSession ?r)" by (rule resumeWords_calm)
  show ?thesis
  proof (cases ?r)
    case (WordsDone marks' s')
    with w have "calm opts s s'" by simp
    then have "calm opts s
        (snd (scanLines opts (frModel fr) (Suc (frLineIndex fr)) (frLines fr) marks' s'))"
      using scanLines_calm calm_trans by blast
    then show ?thesis using WordsDone by (simp add: resume_def)
  qed (use w in \<open>simp_all add: resume_def\<close>)
qed

lemma list_all_sessionCall_suggestions:
  "list_all (sessionCall opts) (map (CallMessageBuilder ApplySuggestion) l)"
  by (induction l) simp_all

lemma provideCodeActions_calm:
  "calm opts s (snd (provideCodeActions cr opts m rng cancelled s))"
  by (auto simp: provideCodeActions_def calm_def Let_def list_all_sessionCall_suggestions
      split: option.splits prod.splits returned.splits)

subsection \<open>Disposal\<close>

lemma released_append: "released (xs @ ys) = released xs @ released ys"
  by (induction xs rule: released.induct) simp_all

lemma released_sessionCall: "list_all (sessionCall opts) tr \<Longrightarrow> released tr = []"
  by (induction tr rule: released.induct) simp_all

lemma released_map_DisposeRegistration: "released (map DisposeRegistration rs) = rs"
  by (induction rs) simp_all

lemma publications_append: "publications (xs @ ys) = publications xs @ publications ys"
  by (induction xs rule: publications.induct) simp_all

lemma publications_map_DisposeRegistration: "publications (map DisposeRegistration rs) = []"
  by (induction rs) simp_all

lemma step_calm:
  assumes "e \<noteq> DoDispose"
  shows "calm opts (fst w) (fst (step cr opts e w))"
proof -
  obtain s pool where w: "w = (s, pool)" by (cases w)
  show ?thesis
  proof (cases e)
    case DoProcess
    have "calm opts s (snd (process opts s))" by (rule process_calm)
    then show ?thesis
      using DoProcess w by (auto split: prod.splits outcome.splits)
  next
    case (DoSettle i)
    have "calm opts s (snd (resume opts (pool ! i) s))" by (rule resume_calm)
    then show ?thesis
      using DoSettle w by (auto simp: calm_refl split: prod.splits outcome.splits)
  next
    case DoDispose
    with assms show ?thesis by simp
  next
    case (DoProvide m rng c)
    then show ?thesis using w by (simp add: provideCodeActions_calm)
  next
    case (DoSetModel m)
    then show ?thesis using w by (simp add: calm_def)
  next
    case (DoEmbedder f)
    then show ?thesis using w by (simp add: calm_def)
  qed
qed

lemma step_DoDispose: "fst (step cr opts DoDispose w) = dispose (fst w)"
  by (cases w) simp

lemma run_invariant:
  assumes "\<And>e w. P (fst w) \<Longrightarrow> P (fst (step cr opts e w))"
  shows "P (fst w) \<Longrightarrow> P (fst (run cr opts es w))"
  using assms by (induction es arbitrary: w) simp_all

lemma process_disposed: "disposed s \<Longrightarrow> process opts s = (Returned, s)"
  by (simp add: process_def)

lemma resume_disposed:
  "disposed s \<Longrightarrow> resume opts fr s = (if frPromise fr = None then Threw else Returned, s)"
  by (simp add: resume_def resumeWords_def split: option.splits)

lemma provideCodeActions_disposed:
  "disposed s \<Longrightarrow> provideCodeActions cr opts m rng cancelled s = (Null, s)"
  by (simp add: provideCodeActions_def)

lemma step_disposedAt:
  assumes "disposedAt s0 (fst w)"
  shows "disposedAt s0 (fst (step cr opts e w))"
proof -
  obtain s pool where w: "w = (s, pool)" by (cases w)
  from assms w have d: "disposed s" by (simp add: disposedAt_def)
  show ?thesis
  proof (cases e)
    case DoProcess
    then show ?thesis using assms w d by (simp add: process_disposed)
  next
    case (DoSettle i)
    then show ?thesis using assms w d by (simp add: resume_disposed)
  next
    case DoDispose
    then show ?thesis
      using assms w
      by (simp add: disposedAt_def dispose_def publications_append
          publications_map_DisposeRegistration)
  next
    case (DoProvide m rng c)
    then show ?thesis using assms w d by (simp add: provideCodeActions_disposed)
  next
    case (DoSetModel m)
    then show ?thesis using assms w by (simp add: disposedAt_def)
  next
    case (DoEmbedder f)
    then show ?thesis using assms w by (simp add: disposedAt_def)
  qed
qed

lemma disposedAt_dispose: "disposedAt s (dispose s)"
  by (simp add: disposedAt_def dispose_def publications_append
      publications_map_DisposeRegistration)

text \<open>
  C3. Let \<open>dispose()\<close> be invoked while calls of \<open>process()\<close> are suspended on a checker's
  promise (\<open>pool\<close>, any suspended calls), and let any events follow, the settling of those
  promises among them. Then in the session reached the disposed flag is set, the marker
  store is empty, and no call of \<open>setModelMarkers\<close> has been made since before the
  disposal; a suspended call that is resumed there (any frame) returns, or throws when its
  promise rejected, and leaves the session as it is, and a new call of \<open>process()\<close> returns
  at once.
\<close>

theorem no_publication_once_disposed:
  assumes "run cr opts es (dispose s, pool) = (s', pool')"
  shows "disposed s' \<and> (\<forall>u. modelMarkers s' u = [])
     \<and> publications (trace s') = publications (trace s)
     \<and> (\<forall>fr. resume opts fr s' = (Returned, s') \<or> resume opts fr s' = (Threw, s'))
     \<and> process opts s' = (Returned, s')"
proof -
  have "disposedAt s (fst (dispose s, pool))"
    by (simp add: disposedAt_dispose)
  then have "disposedAt s (fst (run cr opts es (dispose s, pool)))"
    by (rule run_invariant [rotated]) (rule step_disposedAt)
  with assms have d: "disposedAt s s'" by simp
  then have "disposed s'" by (simp add: disposedAt_def)
  then show ?thesis
    using d by (simp add: disposedAt_def resume_disposed process_disposed)
qed

theorem no_publication_once_disposed_witness:
  "fst (process exampleOptions exampleSession) = Suspended exampleFrame
   \<and> disposed (fst (run containsRange exampleOptions [DoSettle 0]
        (dispose (snd (process exampleOptions exampleSession)), [exampleFrame])))
   \<and> modelMarkers (fst (run containsRange exampleOptions [DoSettle 0]
        (dispose (snd (process exampleOptions exampleSession)), [exampleFrame])))
        (uri exampleModel) = []
   \<and> publications (trace (fst (run containsRange exampleOptions [DoSettle 0]
        (dispose (snd (process exampleOptions exampleSession)), [exampleFrame])))) = []
   \<and> snd (run containsRange exampleOptions [DoSettle 0]
        (dispose (snd (process exampleOptions exampleSession)), [exampleFrame])) = []"
proof -
  let ?s1 = "snd (process exampleOptions exampleSession)"
  let ?w = "run containsRange exampleOptions [DoSettle 0] (dispose ?s1, [exampleFrame])"
  have 1: "fst (process exampleOptions exampleSession) = Suspended exampleFrame"
    by code_simp
  have 2: "publications (trace ?s1) = []"
    by code_simp
  have 3: "snd ?w = []"
    by code_simp
  have "?w = (fst ?w, snd ?w)" by simp
  from no_publication_once_disposed [OF this] 1 2 3 show ?thesis by simp
qed

subsection \<open>Registrations\<close>

lemma distinct_registrations: "distinct (registrations opts)"
  by (simp add: registrations_def correctActionId_def ignoreActionId_def addWordActionId_def)

lemma calm_releasedOnce:
  assumes "calm opts s s'" and "releasedOnce s"
  shows "releasedOnce s'"
proof -
  from assms(1) obtain tr where tr: "trace s' = trace s @ tr" "list_all (sessionCall opts) tr"
      and d: "disposables s' = disposables s"
    by (auto simp: calm_def)
  from tr have "released (trace s') = released (trace s)"
    by (simp add: released_append released_sessionCall)
  with d assms(2) show ?thesis by (simp add: releasedOnce_def)
qed

lemma dispose_releasedOnce: "releasedOnce s \<Longrightarrow> releasedOnce (dispose s)"
  by (simp add: releasedOnce_def dispose_def released_append released_map_DisposeRegistration)

lemma step_releasedOnce:
  assumes "releasedOnce (fst w)"
  shows "releasedOnce (fst (step cr opts e w))"
proof (cases "e = DoDispose")
  case True
  with assms show ?thesis by (simp add: step_DoDispose dispose_releasedOnce)
next
  case False
  then have "calm opts (fst w) (fst (step cr opts e w))" by (rule step_calm)
  then show ?thesis using assms by (rule calm_releasedOnce)
qed

lemma getSpellchecker_releasedOnce: "releasedOnce (getSpellchecker opts m store d)"
  by (simp add: releasedOnce_def getSpellchecker_def distinct_registrations)

text \<open>
  C10. After \<open>dispose()\<close> the list of registrations is empty. A second \<open>dispose()\<close>
  changes nothing but the record of calls, to which it adds the one call of
  \<open>removeAllMarkers\<close>: it releases no registration. And in every run of a session from its
  construction, whatever the events, no registration is released twice.
\<close>

theorem dispose_twice:
  "disposables (dispose s) = []
   \<and> dispose (dispose s) = (dispose s)\<lparr>trace := trace (dispose s) @ [RemoveAllMarkers]\<rparr>
   \<and> released (trace (dispose (dispose s))) = released (trace (dispose s))
   \<and> distinct (released (trace (fst (run cr opts es (getSpellchecker opts m store d, [])))))"
proof (intro conjI)
  show "disposables (dispose s) = []"
    by (simp add: dispose_def)
  show "dispose (dispose s) = (dispose s)\<lparr>trace := trace (dispose s) @ [RemoveAllMarkers]\<rparr>"
    by (simp add: dispose_def)
  show "released (trace (dispose (dispose s))) = released (trace (dispose s))"
    by (simp add: dispose_def released_append)
  have "releasedOnce (fst (getSpellchecker opts m store d, []))"
    by (simp add: getSpellchecker_releasedOnce)
  then have "releasedOnce (fst (run cr opts es (getSpellchecker opts m store d, [])))"
    by (rule run_invariant [rotated]) (rule step_releasedOnce)
  then show "distinct (released (trace (fst (run cr opts es (getSpellchecker opts m store d, [])))))"
    by (simp add: releasedOnce_def)
qed

subsection \<open>The ignore capability\<close>

lemma sessionCall_no_ignore:
  assumes "ignore opts = None" and "list_all (sessionCall opts) tr"
  shows "CallMessageBuilder Ignore w \<notin> set tr \<and> AddAction a \<notin> set tr"
  using assms by (auto simp: list_all_iff)

lemma calm_ignoreFree:
  assumes "ignore opts = None" and "calm opts s s'" and "ignoreFree s"
  shows "ignoreFree s'"
proof -
  from assms(2) obtain tr where tr: "trace s' = trace s @ tr" "list_all (sessionCall opts) tr"
      and d: "disposables s' = disposables s"
    by (auto simp: calm_def)
  show ?thesis
    using assms(3) tr(1) d sessionCall_no_ignore [OF assms(1) tr(2)]
    by (simp add: ignoreFree_def)
qed

lemma dispose_ignoreFree: "ignoreFree s \<Longrightarrow> ignoreFree (dispose s)"
  by (auto simp: ignoreFree_def dispose_def)

lemma step_ignoreFree:
  assumes "ignore opts = None" and "ignoreFree (fst w)"
  shows "ignoreFree (fst (step cr opts e w))"
proof (cases "e = DoDispose")
  case True
  with assms(2) show ?thesis by (simp add: step_DoDispose dispose_ignoreFree)
next
  case False
  then have "calm opts (fst w) (fst (step cr opts e w))" by (rule step_calm)
  with assms(1) show ?thesis using assms(2) by (rule calm_ignoreFree)
qed

lemma getSpellchecker_ignoreFree:
  "ignore opts = None \<Longrightarrow> ignoreFree (getSpellchecker opts m store d)"
  by (simp add: ignoreFree_def getSpellchecker_def registrations_def
      correctActionId_def ignoreActionId_def addWordActionId_def)

lemma provideCodeActions_no_ignore:
  assumes "ignore opts = None"
    and "fst (provideCodeActions cr opts m rng cancelled s) = Actions acts"
    and "a \<in> set acts"
  shows "commandId (command a) \<noteq> buildCustomEditorId ignoreActionId"
  using assms
  by (auto simp: provideCodeActions_def Let_def suggestionAction_def addWordAction_def
      buildCustomEditorId_def correctActionId_def ignoreActionId_def addWordActionId_def
      split: if_splits option.splits prod.splits returned.splits)

text \<open>
  C6. When the ignore capability is omitted, no ignore action is registered at
  construction nor held or registered at any later point of a run, no action returned by
  a code action query (in any session) carries the ignore command, and in every run from
  construction the message builder is never called for the ignore label.
\<close>

theorem no_ignore_without_capability:
  assumes "ignore opts = None"
  shows "EditorAction ignoreActionId \<notin> set (disposables (getSpellchecker opts m store d))
    \<and> AddAction ignoreActionId \<notin> set (trace (fst (run cr opts es (getSpellchecker opts m store d, []))))
    \<and> EditorAction ignoreActionId \<notin> set (disposables (fst (run cr opts es (getSpellchecker opts m store d, []))))
    \<and> (\<forall>acts a. fst (provideCodeActions cr opts qm rng cancelled s) = Actions acts \<longrightarrow> a \<in> set acts
          \<longrightarrow> commandId (command a) \<noteq> buildCustomEditorId ignoreActionId)
    \<and> (\<forall>w. CallMessageBuilder Ignore w
          \<notin> set (trace (fst (run cr opts es (getSpellchecker opts m store d, [])))))"
proof -
  have "ignoreFree (fst (getSpellchecker opts m store d, []))"
    using assms by (simp add: getSpellchecker_ignoreFree)
  then have "ignoreFree (fst (run cr opts es (getSpellchecker opts m store d, [])))"
    by (rule run_invariant [rotated]) (rule step_ignoreFree [OF assms])
  moreover have "ignoreFree (getSpellchecker opts m store d)"
    using assms by (rule getSpellchecker_ignoreFree)
  ultimately show ?thesis
    using provideCodeActions_no_ignore [OF assms]
    by (simp add: ignoreFree_def)
qed

theorem no_ignore_without_capability_witness:
  "ignore exampleNoIgnore = None
   \<and> fst (provideCodeActions containsRange exampleNoIgnore exampleModel exampleQuery False
      (fst (run containsRange exampleNoIgnore exampleEvents
         (getSpellchecker exampleNoIgnore (Some exampleModel) (\<lambda>u. []) [], []))))
     = Actions [suggestionAction exampleNoIgnore (newMarker exampleNoIgnore 0 \<lparr>word = ''teh'', pos = 0\<rparr>) ''the'',
                suggestionAction exampleNoIgnore (newMarker exampleNoIgnore 0 \<lparr>word = ''teh'', pos = 0\<rparr>) ''tea'',
                addWordAction exampleNoIgnore (newMarker exampleNoIgnore 0 \<lparr>word = ''teh'', pos = 0\<rparr>) ''teh'']
   \<and> commandId (command (addWordAction exampleNoIgnore
         (newMarker exampleNoIgnore 0 \<lparr>word = ''teh'', pos = 0\<rparr>) ''teh''))
       \<noteq> buildCustomEditorId ignoreActionId
   \<and> CallMessageBuilder Ignore ''teh'' \<notin> set (trace (fst (run containsRange exampleNoIgnore
         (exampleEvents @ [DoProvide exampleModel exampleQuery False])
         (getSpellchecker exampleNoIgnore (Some exampleModel) (\<lambda>u. []) [], []))))"
proof -
  let ?s = "fst (run containsRange exampleNoIgnore exampleEvents
         (getSpellchecker exampleNoIgnore (Some exampleModel) (\<lambda>u. []) [], []))"
  let ?mk = "newMarker exampleNoIgnore 0 \<lparr>word = ''teh'', pos = 0\<rparr>"
  have 1: "ignore exampleNoIgnore = None"
    by (simp add: exampleNoIgnore_def)
  have 2: "fst (provideCodeActions containsRange exampleNoIgnore exampleModel exampleQuery False ?s)
     = Actions [suggestionAction exampleNoIgnore ?mk ''the'',
                suggestionAction exampleNoIgnore ?mk ''tea'',
                addWordAction exampleNoIgnore ?mk ''teh'']"
    by code_simp
  show ?thesis
    using no_ignore_without_capability [OF 1, of "Some exampleModel" "\<lambda>u. []" "[]" containsRange
        "exampleEvents @ [DoProvide exampleModel exampleQuery False]" exampleModel exampleQuery False ?s]
      1 2
    by simp
qed

subsection \<open>Code action queries\<close>

lemma provideCodeActions_found:
  assumes "\<not> disposed s"
    and "find (\<lambda>mk. cr mk rng) (modelMarkers s (uri m)) = Some mk"
    and "fst (suggest opts (ext s) (code mk)) = Returns l
         \<or> fst (suggest opts (ext s) (code mk)) = Resolves l"
  shows "provideCodeActions cr opts m rng cancelled s =
     (if cancelled
      then (Null, s\<lparr>ext := snd (suggest opts (ext s) (code mk)),
                    trace := trace s @ [CallSuggest (code mk)]\<rparr>)
      else (Actions
              (map (suggestionAction opts mk) l
               @ (if ignore opts \<noteq> None then [ignoreAction opts mk (code mk)] else [])
               @ (if addWord opts \<noteq> None then [addWordAction opts mk (code mk)] else [])),
            s\<lparr>ext := snd (suggest opts (ext s) (code mk)),
              trace := trace s @ [CallSuggest (code mk)]
                @ map (CallMessageBuilder ApplySuggestion) l
                @ (if ignore opts \<noteq> None then [CallMessageBuilder Ignore (code mk)] else [])
                @ (if addWord opts \<noteq> None then [CallMessageBuilder AddWord (code mk)] else [])\<rparr>))"
  using assms
  by (cases "suggest opts (ext s) (code mk)")
     (auto simp: provideCodeActions_def Let_def)

lemma provideCodeActions_cancelled:
  "fst (provideCodeActions cr opts m rng True s) \<noteq> Actions acts"
  by (auto simp: provideCodeActions_def Let_def
      split: option.splits prod.splits returned.splits)

text \<open>
  C5. A code action query whose token reports cancellation once the suggester has been
  awaited returns no actions, in every session; where the marker was found and the
  suggester answered with a list, the suggester has been called and the answer is \<open>null\<close>,
  the list being dropped. A query on a disposed session answers \<open>null\<close> and leaves the
  session, its record of calls included, as it is: the suggester is not called.
\<close>

theorem provideCodeActions_cancelled_or_disposed:
  "(\<forall>acts. fst (provideCodeActions cr opts m rng True s) \<noteq> Actions acts)
   \<and> (\<not> disposed s \<and> find (\<lambda>mk. cr mk rng) (modelMarkers s (uri m)) = Some mk
        \<and> (fst (suggest opts (ext s) (code mk)) = Returns l
             \<or> fst (suggest opts (ext s) (code mk)) = Resolves l)
      \<longrightarrow> provideCodeActions cr opts m rng True s =
            (Null, s\<lparr>ext := snd (suggest opts (ext s) (code mk)),
                      trace := trace s @ [CallSuggest (code mk)]\<rparr>))
   \<and> (disposed s \<longrightarrow> provideCodeActions cr opts m rng cancelled s = (Null, s))"
  using provideCodeActions_found [of s cr rng m mk opts l True]
  by (simp add: provideCodeActions_cancelled provideCodeActions_disposed)

text \<open>
  C4. Let a code action query on a session that is not disposed find a marker \<open>mk\<close>, let
  the suggester answer the list \<open>l\<close> for the marker's word, and let both \<open>ignore\<close> and
  \<open>addWord\<close> be configured. Then a query that is not cancelled returns, and whatever list
  of actions the query returns is, exactly: one apply-suggestion action for each element of
  \<open>l\<close> in the order of \<open>l\<close> (titled by the suggestion, carrying the correction command with
  the marker and the suggestion), then the ignore action, then the add-word action (each
  carrying its command with the word); all of kind \<open>quickfix\<close> and ranged over the marker.
\<close>

theorem provideCodeActions_order:
  assumes "\<not> disposed s"
    and "find (\<lambda>mk. cr mk rng) (modelMarkers s (uri m)) = Some mk"
    and "fst (suggest opts (ext s) (code mk)) = Returns l
         \<or> fst (suggest opts (ext s) (code mk)) = Resolves l"
    and "ignore opts \<noteq> None" and "addWord opts \<noteq> None"
  shows "(\<not> cancelled \<longrightarrow>
            fst (provideCodeActions cr opts m rng cancelled s) =
              Actions (map (suggestionAction opts mk) l
                       @ [ignoreAction opts mk (code mk), addWordAction opts mk (code mk)]))
     \<and> (\<forall>acts. fst (provideCodeActions cr opts m rng cancelled s) = Actions acts \<longrightarrow>
            acts = map (suggestionAction opts mk) l
                   @ [ignoreAction opts mk (code mk), addWordAction opts mk (code mk)])
     \<and> map title (map (suggestionAction opts mk) l) = l
     \<and> map (commandId \<circ> command)
          (map (suggestionAction opts mk) l
           @ [ignoreAction opts mk (code mk), addWordAction opts mk (code mk)])
        = replicate (length l) (buildCustomEditorId correctActionId)
          @ [buildCustomEditorId ignoreActionId, buildCustomEditorId addWordActionId]
     \<and> map (arguments \<circ> command)
          (map (suggestionAction opts mk) l
           @ [ignoreAction opts mk (code mk), addWordAction opts mk (code mk)])
        = map (\<lambda>sg. [CorrectionArg mk sg]) l @ [[WordArg (code mk)], [WordArg (code mk)]]
     \<and> list_all (\<lambda>a. kind a = ''quickfix'' \<and> ranges a = [mk])
          (map (suggestionAction opts mk) l
           @ [ignoreAction opts mk (code mk), addWordAction opts mk (code mk)])"
proof -
  let ?acts = "map (suggestionAction opts mk) l
               @ [ignoreAction opts mk (code mk), addWordAction opts mk (code mk)]"
  have f: "provideCodeActions cr opts m rng cancelled s =
     (if cancelled
      then (Null, s\<lparr>ext := snd (suggest opts (ext s) (code mk)),
                    trace := trace s @ [CallSuggest (code mk)]\<rparr>)
      else (Actions ?acts,
            s\<lparr>ext := snd (suggest opts (ext s) (code mk)),
              trace := trace s @ [CallSuggest (code mk)]
                @ map (CallMessageBuilder ApplySuggestion) l
                @ [CallMessageBuilder Ignore (code mk), CallMessageBuilder AddWord (code mk)]\<rparr>))"
    using assms provideCodeActions_found [of s cr rng m mk opts l cancelled] by simp
  have 1: "\<not> cancelled \<longrightarrow> fst (provideCodeActions cr opts m rng cancelled s) = Actions ?acts"
    using f by (cases cancelled) simp_all
  have 2: "\<forall>acts. fst (provideCodeActions cr opts m rng cancelled s) = Actions acts
             \<longrightarrow> acts = ?acts"
    using f by (cases cancelled) simp_all
  have 3: "map title (map (suggestionAction opts mk) l) = l"
    by (induction l) (simp_all add: suggestionAction_def)
  have 4: "map (commandId \<circ> command) ?acts
      = replicate (length l) (buildCustomEditorId correctActionId)
        @ [buildCustomEditorId ignoreActionId, buildCustomEditorId addWordActionId]"
    by (induction l)
       (simp_all add: suggestionAction_def ignoreAction_def addWordAction_def Let_def)
  have 5: "map (arguments \<circ> command) ?acts
      = map (\<lambda>sg. [CorrectionArg mk sg]) l @ [[WordArg (code mk)], [WordArg (code mk)]]"
    by (induction l)
       (simp_all add: suggestionAction_def ignoreAction_def addWordAction_def Let_def)
  have 6: "list_all (\<lambda>a. kind a = ''quickfix'' \<and> ranges a = [mk]) ?acts"
    by (induction l)
       (simp_all add: suggestionAction_def ignoreAction_def addWordAction_def Let_def)
  from 1 2 3 4 5 6 show ?thesis by blast
qed

theorem provideCodeActions_cancelled_or_disposed_witness:
  "disposed (fst (run containsRange exampleOptions exampleEvents (exampleSession, []))) = False
   \<and> find (\<lambda>mk. containsRange mk exampleQuery)
        (modelMarkers (fst (run containsRange exampleOptions exampleEvents (exampleSession, [])))
           (uri exampleModel))
       = Some (newMarker exampleOptions 0 \<lparr>word = ''teh'', pos = 0\<rparr>)
   \<and> fst (suggest exampleOptions
          (ext (fst (run containsRange exampleOptions exampleEvents (exampleSession, []))))
          ''teh'') = Returns [''the'', ''tea'']
   \<and> fst (provideCodeActions containsRange exampleOptions exampleModel exampleQuery True
          (fst (run containsRange exampleOptions exampleEvents (exampleSession, [])))) = Null
   \<and> trace (snd (provideCodeActions containsRange exampleOptions exampleModel exampleQuery True
          (fst (run containsRange exampleOptions exampleEvents (exampleSession, [])))))
       = trace (fst (run containsRange exampleOptions exampleEvents (exampleSession, [])))
         @ [CallSuggest ''teh'']
   \<and> provideCodeActions containsRange exampleOptions exampleModel exampleQuery False
        (dispose (fst (run containsRange exampleOptions exampleEvents (exampleSession, []))))
       = (Null, dispose (fst (run containsRange exampleOptions exampleEvents (exampleSession, []))))"
proof -
  define s where "s = fst (run containsRange exampleOptions exampleEvents (exampleSession, []))"
  define mk where "mk = newMarker exampleOptions 0 \<lparr>word = ''teh'', pos = 0\<rparr>"
  have 1: "disposed s = False"
    unfolding s_def by code_simp
  have 2: "find (\<lambda>mk. containsRange mk exampleQuery) (modelMarkers s (uri exampleModel))
      = Some mk"
    unfolding s_def mk_def by code_simp
  have 3: "code mk = ''teh''"
    by (simp add: mk_def newMarker_def Let_def)
  have 4: "suggest exampleOptions (ext s) ''teh'' = (Returns [''the'', ''tea''], ext s)"
    by (simp add: exampleOptions_def)
  have 5: "disposed (dispose s)"
    by (simp add: dispose_def)
  have "provideCodeActions containsRange exampleOptions exampleModel exampleQuery True s
      = (Null, s\<lparr>ext := ext s, trace := trace s @ [CallSuggest ''teh'']\<rparr>)"
    using provideCodeActions_cancelled_or_disposed
        [of containsRange exampleOptions exampleModel exampleQuery s mk "[''the'', ''tea'']" False]
      1 2 3 4
    by simp
  moreover have "provideCodeActions containsRange exampleOptions exampleModel exampleQuery False
      (dispose s) = (Null, dispose s)"
    using provideCodeActions_cancelled_or_disposed
        [of containsRange exampleOptions exampleModel exampleQuery "dispose s" mk "[]" False] 5
    by simp
  ultimately have "disposed s = False
   \<and> find (\<lambda>mk. containsRange mk exampleQuery) (modelMarkers s (uri exampleModel)) = Some mk
   \<and> fst (suggest exampleOptions (ext s) ''teh'') = Returns [''the'', ''tea'']
   \<and> fst (provideCodeActions containsRange exampleOptions exampleModel exampleQuery True s) = Null
   \<and> trace (snd (provideCodeActions containsRange exampleOptions exampleModel exampleQuery True s))
       = trace s @ [CallSuggest ''teh'']
   \<and> provideCodeActions containsRange exampleOptions exampleModel exampleQuery False (dispose s)
       = (Null, dispose s)"
    using 1 2 4 by simp
  then show ?thesis
    unfolding s_def mk_def .
qed

theorem provideCodeActions_order_witness:
  "disposed (fst (run containsRange exampleOptions exampleEvents (exampleSession, []))) = False
   \<and> find (\<lambda>mk. containsRange mk exampleQuery)
        (modelMarkers (fst (run containsRange exampleOptions exampleEvents (exampleSession, [])))
           (uri exampleModel))
       = Some (newMarker exampleOptions 0 \<lparr>word = ''teh'', pos = 0\<rparr>)
   \<and> fst (suggest exampleOptions
          (ext (fst (run containsRange exampleOptions exampleEvents (exampleSession, []))))
          ''teh'') = Returns [''the'', ''tea'']
   \<and> fst (provideCodeActions containsRange exampleOptions exampleModel exampleQuery False
          (fst (run containsRange exampleOptions exampleEvents (exampleSession, []))))
       = Actions
           [suggestionAction exampleOptions
              (newMarker exampleOptions 0 \<lparr>word = ''teh'', pos = 0\<rparr>) ''the'',
            suggestionAction exampleOptions
              (newMarker exampleOptions 0 \<lparr>word = ''teh'', pos = 0\<rparr>) ''tea'',
            ignoreAction exampleOptions
              (newMarker exampleOptions 0 \<lparr>word = ''teh'', pos = 0\<rparr>) ''teh'',
            addWordAction exampleOptions
              (newMarker exampleOptions 0 \<lparr>word = ''teh'', pos = 0\<rparr>) ''teh'']"
proof -
  define s where "s = fst (run containsRange exampleOptions exampleEvents (exampleSession, []))"
  define mk where "mk = newMarker exampleOptions 0 \<lparr>word = ''teh'', pos = 0\<rparr>"
  have 1: "disposed s = False"
    unfolding s_def by code_simp
  have 2: "find (\<lambda>mk. containsRange mk exampleQuery) (modelMarkers s (uri exampleModel))
      = Some mk"
    unfolding s_def mk_def by code_simp
  have 3: "code mk = ''teh''"
    by (simp add: mk_def newMarker_def Let_def)
  have 4: "suggest exampleOptions (ext s) ''teh'' = (Returns [''the'', ''tea''], ext s)"
    by (simp add: exampleOptions_def)
  have 5: "ignore exampleOptions \<noteq> None" and 6: "addWord exampleOptions \<noteq> None"
    by (simp_all add: exampleOptions_def)
  have 7: "\<not> disposed s"
    using 1 by simp
  have 8: "fst (suggest exampleOptions (ext s) (code mk)) = Returns [''the'', ''tea'']
      \<or> fst (suggest exampleOptions (ext s) (code mk)) = Resolves [''the'', ''tea'']"
    using 3 4 by simp
  note inst = provideCodeActions_order
        [of s containsRange exampleQuery exampleModel mk exampleOptions "[''the'', ''tea'']" False,
         OF 7 2 8 5 6, THEN conjunct1]
  have "fst (provideCodeActions containsRange exampleOptions exampleModel exampleQuery False s)
      = Actions [suggestionAction exampleOptions mk ''the'',
                 suggestionAction exampleOptions mk ''tea'',
                 ignoreAction exampleOptions mk ''teh'',
                 addWordAction exampleOptions mk ''teh'']"
    using inst 3 by simp
  then have "disposed s = False
   \<and> find (\<lambda>mk. containsRange mk exampleQuery) (modelMarkers s (uri exampleModel)) = Some mk
   \<and> fst (suggest exampleOptions (ext s) ''teh'') = Returns [''the'', ''tea'']
   \<and> fst (provideCodeActions containsRange exampleOptions exampleModel exampleQuery False s)
       = Actions [suggestionAction exampleOptions mk ''the'',
                  suggestionAction exampleOptions mk ''tea'',
                  ignoreAction exampleOptions mk ''teh'',
                  addWordAction exampleOptions mk ''teh'']"
    using 1 2 4 by simp
  then show ?thesis
    unfolding s_def mk_def .
qed

subsection \<open>Scanning under a checker with a fixed verdict\<close>

lemma judges_check:
  assumes "judges opts v" and "check opts d w = (r, d')"
  shows "verdict r = v w"
  using assms unfolding judges_def by (metis fst_conv)

lemma tokensMarks_Cons:
  "tokensMarks opts v li (t # ts) =
     (if misspelled v t then [newMarker opts li t] else []) @ tokensMarks opts v li ts"
  by (simp add: tokensMarks_def)

lemma tokensCalls_Cons:
  "tokensCalls v (t # ts) = CallCheck (word t) # afterCalls v t @ tokensCalls v ts"
  by (simp add: tokensCalls_def)

lemma markToken_judged:
  assumes "v (word t) = Some b"
  shows "markToken opts li t b marks s =
     (marks @ (if misspelled v t then [newMarker opts li t] else []),
      s\<lparr>trace := trace s @ afterCalls v t\<rparr>)"
  using assms by (cases b) (simp_all add: markToken_def misspelled_def afterCalls_def)

lemma scanWords_onCourse:
  assumes "judges opts v"
  shows "wordsOnCourse opts v li (marks @ tokensMarks opts v li ts)
           (trace s @ tokensCalls v ts) (scanWords opts li ts marks s)"
proof (induction ts arbitrary: marks s)
  case Nil
  show ?case by (simp add: tokensMarks_def tokensCalls_def)
next
  case (Cons t ts)
  obtain r d where c: "check opts (ext s) (word t) = (r, d)"
    by (cases "check opts (ext s) (word t)")
  have vr: "verdict r = v (word t)"
    using assms c by (rule judges_check)
  define s1 where "s1 = s\<lparr>ext := d, trace := trace s @ [CallCheck (word t)]\<rparr>"
  have t1: "trace s1 = trace s @ [CallCheck (word t)]" by (simp add: s1_def)
  have d1: "disposed s1 = disposed s" by (simp add: s1_def)
  show ?case
  proof (cases r)
    case (Returns b)
    with vr have vb: "v (word t) = Some b" by (simp add: verdict_def)
    show ?thesis
    proof (cases "disposed s")
      case True
      then show ?thesis using c Returns by simp
    next
      case False
      let ?marks' = "marks @ (if misspelled v t then [newMarker opts li t] else [])"
      let ?s2 = "s1\<lparr>trace := trace s1 @ afterCalls v t\<rparr>"
      have "wordsOnCourse opts v li (?marks' @ tokensMarks opts v li ts)
              (trace ?s2 @ tokensCalls v ts) (scanWords opts li ts ?marks' ?s2)"
        by (rule Cons.IH)
      then show ?thesis
        using c Returns False vb markToken_judged [of v t b opts li marks s1] t1 d1
        by (simp add: s1_def [symmetric] tokensMarks_Cons tokensCalls_Cons)
    qed
  next
    case (Resolves b)
    with vr have "v (word t) = Some b" by (simp add: verdict_def)
    then show ?thesis
      using c Resolves t1 by (simp add: s1_def [symmetric] tokensCalls_Cons)
  next
    case Throws
    then show ?thesis using c by (simp add: s1_def [symmetric])
  next
    case Rejects
    with vr have "v (word t) = None" by (simp add: verdict_def)
    then show ?thesis
      using c Rejects t1 by (simp add: s1_def [symmetric] tokensCalls_Cons)
  qed
qed

lemma resumeWords_onCourse:
  assumes "judges opts v" and "p = v (word t)"
  shows "wordsOnCourse opts v li (marks @ tokensMarks opts v li (t # ts))
           (trace s @ afterCalls v t @ tokensCalls v ts)
           (resumeWords opts li p t ts marks s)"
proof (cases p)
  case None
  then show ?thesis by (simp add: resumeWords_def)
next
  case (Some b)
  with assms(2) have vb: "v (word t) = Some b" by simp
  show ?thesis
  proof (cases "disposed s")
    case True
    then show ?thesis using Some by (simp add: resumeWords_def)
  next
    case False
    let ?marks' = "marks @ (if misspelled v t then [newMarker opts li t] else [])"
    let ?s2 = "s\<lparr>trace := trace s @ afterCalls v t\<rparr>"
    have "wordsOnCourse opts v li (?marks' @ tokensMarks opts v li ts)
            (trace ?s2 @ tokensCalls v ts) (scanWords opts li ts ?marks' ?s2)"
      using assms(1) by (rule scanWords_onCourse)
    then show ?thesis
      using Some False vb markToken_judged [of v t b opts li marks s]
      by (simp add: resumeWords_def tokensMarks_Cons)
  qed
qed

lemma onCourse_setModelMarkers:
  "onCourse opts v m marks (trace s) Finished (setModelMarkers m marks s)"
  by (simp add: onCourse_def setModelMarkers_def)

lemma scanLines_onCourse:
  assumes "judges opts v"
  shows "onCourse opts v m (linesMarks opts v li ls marks)
           (trace s @ linesCalls opts v li ls marks)
           (fst (scanLines opts m li ls marks s)) (snd (scanLines opts m li ls marks s))"
proof (induction ls arbitrary: li marks s)
  case Nil
  show ?case by (simp add: onCourse_setModelMarkers)
next
  case (Cons l ls)
  show ?case
  proof (cases "length marks > 500")
    case True
    then show ?thesis by (simp add: onCourse_setModelMarkers)
  next
    case False
    let ?ts = "theTokenize opts l"
    have w: "wordsOnCourse opts v li (marks @ tokensMarks opts v li ?ts)
               (trace s @ tokensCalls v ?ts) (scanWords opts li ?ts marks s)"
      using assms by (rule scanWords_onCourse)
    show ?thesis
    proof (cases "scanWords opts li ?ts marks s")
      case (WordsDone marks' s')
      with w have "marks' = marks @ tokensMarks opts v li ?ts"
          and "trace s' = trace s @ tokensCalls v ?ts"
        by simp_all
      then show ?thesis
        using False WordsDone Cons.IH [of "Suc li" marks' s'] by simp
    next
      case (WordsAwait p t ts marks' s')
      with w have "p = v (word t)"
          and "marks' @ tokensMarks opts v li (t # ts) = marks @ tokensMarks opts v li ?ts"
          and "trace s' @ afterCalls v t @ tokensCalls v ts = trace s @ tokensCalls v ?ts"
        by simp_all
      then show ?thesis
        using False WordsAwait
        by (simp add: onCourse_def frameMarks_def frameCalls_def)
    qed (use False in \<open>simp_all add: onCourse_def\<close>)
  qed
qed

lemma process_onCourse:
  assumes "judges opts v" and "editorModel s = Some m"
  shows "onCourse opts v m (linesMarks opts v 0 (splitLines (getValue m)) [])
           (trace s @ linesCalls opts v 0 (splitLines (getValue m)) [])
           (fst (process opts s)) (snd (process opts s))"
proof (cases "disposed s")
  case True
  then show ?thesis by (simp add: process_def onCourse_def)
next
  case False
  then show ?thesis
    using assms(2) scanLines_onCourse [OF assms(1)] by (simp add: process_def)
qed

lemma resume_onCourse:
  assumes "judges opts v" and "frPromise fr = v (word (frToken fr))"
  shows "onCourse opts v (frModel fr) (frameMarks opts v fr) (trace s @ frameCalls opts v fr)
           (fst (resume opts fr s)) (snd (resume opts fr s))"
proof -
  let ?li = "frLineIndex fr"
  let ?all = "frMarks fr @ tokensMarks opts v ?li (frToken fr # frWords fr)"
  let ?r = "resumeWords opts ?li (frPromise fr) (frToken fr) (frWords fr) (frMarks fr) s"
  have w: "wordsOnCourse opts v ?li ?all
             (trace s @ afterCalls v (frToken fr) @ tokensCalls v (frWords fr)) ?r"
    using assms by (rule resumeWords_onCourse)
  show ?thesis
  proof (cases ?r)
    case (WordsDone marks' s')
    with w have "marks' = ?all"
        and "trace s' = trace s @ afterCalls v (frToken fr) @ tokensCalls v (frWords fr)"
      by simp_all
    then show ?thesis
      using WordsDone
        scanLines_onCourse [OF assms(1), of "frModel fr" "Suc ?li" "frLines fr" marks' s']
      by (simp add: resume_def frameMarks_def frameCalls_def)
  next
    case (WordsAwait p t ts marks' s')
    with w have "p = v (word t)"
        and "marks' @ tokensMarks opts v ?li (t # ts) = ?all"
        and "trace s' @ afterCalls v t @ tokensCalls v ts
             = trace s @ afterCalls v (frToken fr) @ tokensCalls v (frWords fr)"
      by simp_all
    then show ?thesis
      using WordsAwait
      by (simp add: resume_def onCourse_def frameMarks_def frameCalls_def)
  qed (simp_all add: resume_def onCourse_def)
qed

lemma onCourse_heading:
  "onCourse opts v m marks tr out s \<Longrightarrow> heading opts v m marks out s"
  by (cases out) (simp_all add: onCourse_def heading_def)

lemma resume_heading:
  assumes "judges opts v" and "heading opts v m marks (Suspended fr) s0"
  shows "heading opts v m marks (fst (resume opts fr s)) (snd (resume opts fr s))"
proof -
  from assms(2) have fr: "frModel fr = m" "frPromise fr = v (word (frToken fr))"
      "frameMarks opts v fr = marks"
    by (simp_all add: heading_def)
  from resume_onCourse [OF assms(1) fr(2), of s] show ?thesis
    using fr(1,3) by (auto dest: onCourse_heading)
qed

lemma follow_heading:
  assumes "judges opts v"
  shows "heading opts v m marks out s \<Longrightarrow>
         follow cr opts ess (out, s, pool) = (out', s', pool') \<Longrightarrow>
         heading opts v m marks out' s'"
proof (induction ess arbitrary: out s pool)
  case Nil
  then show ?case by simp
next
  case (Cons es ess)
  show ?case
  proof (cases out)
    case (Suspended fr)
    obtain s1 pool1 where r: "run cr opts es (s, pool) = (s1, pool1)"
      by (cases "run cr opts es (s, pool)")
    obtain out1 s2 where q: "resume opts fr s1 = (out1, s2)"
      by (cases "resume opts fr s1")
    have "heading opts v m marks out1 s2"
      using resume_heading [OF assms, of m marks fr s s1] Cons.prems(1) Suspended q by simp
    moreover have "follow cr opts ess (out1, s2, pool1) = (out', s', pool')"
      using Cons.prems(2) Suspended r q by simp
    ultimately show ?thesis by (rule Cons.IH)
  qed (use Cons.prems in simp_all)
qed

lemma processCall_heading:
  assumes "judges opts v" and "editorModel s = Some m"
    and "processCall cr opts ess (s, pool) = (out', s', pool')"
  shows "heading opts v m (linesMarks opts v 0 (splitLines (getValue m)) []) out' s'"
proof -
  obtain out s1 where p: "process opts s = (out, s1)"
    by (cases "process opts s")
  have "heading opts v m (linesMarks opts v 0 (splitLines (getValue m)) []) out s1"
    using process_onCourse [OF assms(1,2)] p by (auto dest: onCourse_heading)
  moreover have "follow cr opts ess (out, s1, pool) = (out', s', pool')"
    using assms(3) p by (simp add: processCall_def)
  ultimately show ?thesis by (rule follow_heading [OF assms(1)])
qed

lemma resume_stays_onCourse:
  assumes "judges opts v" and "onCourse opts v m marks tr (Suspended fr) s"
  shows "onCourse opts v m marks tr (fst (resume opts fr s)) (snd (resume opts fr s))"
proof -
  from assms(2) have fr: "frModel fr = m" "frPromise fr = v (word (frToken fr))"
      "frameMarks opts v fr = marks" "trace s @ frameCalls opts v fr = tr"
    by (simp_all add: onCourse_def)
  from resume_onCourse [OF assms(1) fr(2), of s] show ?thesis
    using fr(1,3,4) by simp
qed

lemma follow_alone_onCourse:
  assumes "judges opts v"
  shows "onCourse opts v m marks tr out s \<Longrightarrow>
         follow cr opts (replicate n []) (out, s, pool) = (out', s', pool') \<Longrightarrow>
         onCourse opts v m marks tr out' s'"
proof (induction n arbitrary: out s)
  case 0
  then show ?case by simp
next
  case (Suc n)
  show ?case
  proof (cases out)
    case (Suspended fr)
    obtain out1 s2 where q: "resume opts fr s = (out1, s2)"
      by (cases "resume opts fr s")
    have "onCourse opts v m marks tr out1 s2"
      using resume_stays_onCourse [OF assms, of m marks tr fr s] Suc.prems(1) Suspended q by simp
    moreover have "follow cr opts (replicate n []) (out1, s2, pool) = (out', s', pool')"
      using Suc.prems(2) Suspended q by simp
    ultimately show ?thesis by (rule Suc.IH)
  qed (use Suc.prems in simp_all)
qed

lemma processCall_alone_onCourse:
  assumes "judges opts v" and "editorModel s = Some m"
    and "processCall cr opts (replicate n []) (s, pool) = (out', s', pool')"
  shows "onCourse opts v m (linesMarks opts v 0 (splitLines (getValue m)) [])
           (trace s @ linesCalls opts v 0 (splitLines (getValue m)) []) out' s'"
proof -
  obtain out s1 where p: "process opts s = (out, s1)"
    by (cases "process opts s")
  have "onCourse opts v m (linesMarks opts v 0 (splitLines (getValue m)) [])
          (trace s @ linesCalls opts v 0 (splitLines (getValue m)) []) out s1"
    using process_onCourse [OF assms(1,2)] p by simp
  moreover have "follow cr opts (replicate n []) (out, s1, pool) = (out', s', pool')"
    using assms(3) p by (simp add: processCall_def)
  ultimately show ?thesis by (rule follow_alone_onCourse [OF assms(1)])
qed

subsection \<open>The lines a scan covers\<close>

lemma indexedTokens_Cons:
  "indexedTokens opts ((li, l) # ils) = map (Pair li) (theTokenize opts l) @ indexedTokens opts ils"
  by (simp add: indexedTokens_def)

lemma indexedTokens_Nil: "indexedTokens opts [] = []"
  by (simp add: indexedTokens_def)

lemma tokensMarks_indexed:
  "tokensMarks opts v li ts =
     map (\<lambda>(j, t). newMarker opts j t) (filter (\<lambda>(j, t). misspelled v t) (map (Pair li) ts))"
  by (induction ts) (simp_all add: tokensMarks_def)

text \<open>A scan that never meets the cap covers all the lines.\<close>

lemma linesMarks_all:
  assumes "length marks
             + length (filter (\<lambda>(j, t). misspelled v t) (indexedTokens opts (enumerate li ls)))
           \<le> 500"
  shows "linesMarks opts v li ls marks =
           marks @ map (\<lambda>(j, t). newMarker opts j t)
                     (filter (\<lambda>(j, t). misspelled v t) (indexedTokens opts (enumerate li ls)))"
  using assms
proof (induction ls arbitrary: li marks)
  case Nil
  show ?case by (simp add: indexedTokens_Nil)
next
  case (Cons l ls)
  let ?new = "tokensMarks opts v li (theTokenize opts l)"
  have n: "length marks \<le> 500" using Cons.prems by simp
  have "length (marks @ ?new)
          + length (filter (\<lambda>(j, t). misspelled v t) (indexedTokens opts (enumerate (Suc li) ls)))
        \<le> 500"
    using Cons.prems by (simp add: indexedTokens_Cons tokensMarks_indexed)
  then have "linesMarks opts v (Suc li) ls (marks @ ?new) =
      (marks @ ?new) @ map (\<lambda>(j, t). newMarker opts j t)
         (filter (\<lambda>(j, t). misspelled v t) (indexedTokens opts (enumerate (Suc li) ls)))"
    by (rule Cons.IH)
  then show ?case
    using n by (simp add: indexedTokens_Cons tokensMarks_indexed)
qed

text \<open>
  In general a scan covers the first \<open>k\<close> lines, for the \<open>k\<close> at which the cap is first
  met at the head of a line.
\<close>

lemma linesMarks_cut:
  "\<exists>k \<le> length ls.
     linesMarks opts v li ls marks =
       marks @ map (\<lambda>(j, t). newMarker opts j t)
                 (filter (\<lambda>(j, t). misspelled v t) (indexedTokens opts (enumerate li (take k ls))))
     \<and> linesCalls opts v li ls marks = tokensCalls v (map snd (indexedTokens opts (enumerate li (take k ls))))
     \<and> (\<forall>j < k. length marks + length (filter (\<lambda>(j, t). misspelled v t)
                               (indexedTokens opts (enumerate li (take j ls)))) \<le> 500)
     \<and> (k < length ls \<longrightarrow> 500 < length (linesMarks opts v li ls marks))"
proof (induction ls arbitrary: li marks)
  case Nil
  show ?case by (simp add: indexedTokens_Nil tokensCalls_def)
next
  case (Cons l ls)
  show ?case
  proof (cases "length marks > 500")
    case True
    then show ?thesis
      by (intro exI [of _ 0]) (simp add: indexedTokens_Nil tokensCalls_def)
  next
    case False
    let ?new = "tokensMarks opts v li (theTokenize opts l)"
    let ?P = "\<lambda>its. filter (\<lambda>(j, t). misspelled v t) its"
    from Cons.IH [of "Suc li" "marks @ ?new"] obtain k where k: "k \<le> length ls"
      and m: "linesMarks opts v (Suc li) ls (marks @ ?new) =
         (marks @ ?new) @ map (\<lambda>(j, t). newMarker opts j t)
            (?P (indexedTokens opts (enumerate (Suc li) (take k ls))))"
      and c: "linesCalls opts v (Suc li) ls (marks @ ?new) =
         tokensCalls v (map snd (indexedTokens opts (enumerate (Suc li) (take k ls))))"
      and b: "\<forall>j < k. length (marks @ ?new)
                + length (?P (indexedTokens opts (enumerate (Suc li) (take j ls)))) \<le> 500"
      and e: "k < length ls \<longrightarrow> 500 < length (linesMarks opts v (Suc li) ls (marks @ ?new))"
      by blast
    have b': "length marks + length (?P (indexedTokens opts (enumerate li (take j (l # ls))))) \<le> 500"
      if "j < Suc k" for j
    proof (cases j)
      case 0
      then show ?thesis using False by (simp add: indexedTokens_Nil)
    next
      case (Suc j')
      with that have "j' < k" by simp
      with b have "length (marks @ ?new)
          + length (?P (indexedTokens opts (enumerate (Suc li) (take j' ls)))) \<le> 500"
        by blast
      then show ?thesis
        using Suc by (simp add: indexedTokens_Cons tokensMarks_indexed)
    qed
    have tc: "tokensCalls v (xs @ ys) = tokensCalls v xs @ tokensCalls v ys" for xs ys
      by (simp add: tokensCalls_def)
    have sn: "map (snd \<circ> Pair li) ts = ts" for ts :: "token list"
      by (induction ts) simp_all
    show ?thesis
    proof (intro exI [of _ "Suc k"] conjI allI impI)
      show "Suc k \<le> length (l # ls)" using k by simp
      show "linesMarks opts v li (l # ls) marks =
          marks @ map (\<lambda>(j, t). newMarker opts j t)
             (?P (indexedTokens opts (enumerate li (take (Suc k) (l # ls)))))"
        using False m by (simp add: indexedTokens_Cons tokensMarks_indexed)
      show "linesCalls opts v li (l # ls) marks =
          tokensCalls v (map snd (indexedTokens opts (enumerate li (take (Suc k) (l # ls)))))"
        using False c by (simp add: indexedTokens_Cons tc sn)
      show "length marks + length (?P (indexedTokens opts (enumerate li (take j (l # ls))))) \<le> 500"
        if "j < Suc k" for j
        using that by (rule b')
      show "500 < length (linesMarks opts v li (l # ls) marks)" if "Suc k < length (l # ls)"
        using that e False by simp
    qed
  qed
qed

lemma indexedTokens_index:
  "(j, t) \<in> set (indexedTokens opts (enumerate li ls)) \<Longrightarrow> li \<le> j"
proof (induction ls arbitrary: li)
  case Nil
  then show ?case by (simp add: indexedTokens_Nil)
next
  case (Cons l ls)
  then show ?case by (fastforce simp: indexedTokens_Cons)
qed

lemma indexedTokens_take:
  "filter (\<lambda>(j, t). j < li + k) (indexedTokens opts (enumerate li ls)) =
     indexedTokens opts (enumerate li (take k ls))"
proof (induction ls arbitrary: li k)
  case Nil
  show ?case by (simp add: indexedTokens_Nil)
next
  case (Cons l ls)
  show ?case
  proof (cases k)
    case 0
    have "filter (\<lambda>(j, t). j < li) (indexedTokens opts (enumerate (Suc li) ls)) = []"
      by (auto simp: filter_empty_conv dest: indexedTokens_index)
    then show ?thesis using 0 by (simp add: indexedTokens_Cons indexedTokens_Nil)
  next
    case (Suc k')
    have "filter (\<lambda>(j, t). j < Suc li + k') (indexedTokens opts (enumerate (Suc li) ls)) =
        indexedTokens opts (enumerate (Suc li) (take k' ls))"
      by (rule Cons.IH)
    then show ?thesis using Suc by (simp add: indexedTokens_Cons)
  qed
qed

lemma docTokens_lines:
  "filter (\<lambda>(j, t). j < k) (docTokens opts tx) =
     indexedTokens opts (enumerate 0 (take k (splitLines tx)))"
  using indexedTokens_take [of 0 k opts "splitLines tx"] by (simp add: docTokens_def)

lemma misspelled_const: "misspelled (\<lambda>w. Some (correct w)) t \<longleftrightarrow> \<not> correct (word t)"
  by (simp add: misspelled_def)

lemma misspelledTokens_lines:
  "filter (\<lambda>(j, t). j < k) (misspelledTokens opts correct tx) =
     filter (\<lambda>(j, t). misspelled (\<lambda>w. Some (correct w)) t)
       (indexedTokens opts (enumerate 0 (take k (splitLines tx))))"
proof -
  have comm: "filter P (filter Q xs) = filter Q (filter P xs)"
    for P Q and xs :: "(nat \<times> token) list"
    by (induction xs) auto
  have "filter (\<lambda>(j, t). j < k) (misspelledTokens opts correct tx) =
      filter (\<lambda>(j, t). \<not> correct (word t)) (filter (\<lambda>(j, t). j < k) (docTokens opts tx))"
    unfolding misspelledTokens_def by (rule comm)
  then show ?thesis
    by (simp add: docTokens_lines misspelled_const)
qed

lemma misspelledTokens_indexed:
  "misspelledTokens opts correct tx =
     filter (\<lambda>(j, t). misspelled (\<lambda>w. Some (correct w)) t)
       (indexedTokens opts (enumerate 0 (splitLines tx)))"
  by (simp add: misspelledTokens_def docTokens_def misspelled_const)

lemma judges_const:
  "\<forall>d w. verdict (fst (check opts d w)) = Some (correct w) \<Longrightarrow> judges opts (\<lambda>w. Some (correct w))"
  by (simp add: judges_def)

lemma processCall_Finished:
  assumes "judges opts v" and "editorModel s = Some m"
    and "processCall cr opts ess (s, pool) = (Finished, s', pool')"
  shows "modelMarkers s' (uri m) = linesMarks opts v 0 (splitLines (getValue m)) []"
  using processCall_heading [OF assms] by (simp add: heading_def)

lemma tokensCalls_scanCalls:
  "tokensCalls (\<lambda>w. Some (correct w)) (map snd its) = scanCalls correct its"
  by (induction its)
     (auto simp: tokensCalls_def scanCalls_def afterCalls_def misspelled_def)

lemma all_empty_replicate: "\<forall>es \<in> set ess. es = [] \<Longrightarrow> ess = replicate (length ess) []"
  by (induction ess) simp_all

lemma processCall_alone_Finished:
  assumes "judges opts v" and "editorModel s = Some m"
    and "processCall cr opts ess (s, pool) = (Finished, s', pool')"
    and "\<forall>es \<in> set ess. es = []"
  shows "trace s' = trace s @ linesCalls opts v 0 (splitLines (getValue m)) []
                     @ [SetModelMarkers (uri m) (linesMarks opts v 0 (splitLines (getValue m)) [])]"
proof -
  from assms(4) have "ess = replicate (length ess) []" by (rule all_empty_replicate)
  with assms(3) have "processCall cr opts (replicate (length ess) []) (s, pool) = (Finished, s', pool')"
    by simp
  from processCall_alone_onCourse [OF assms(1,2) this] show ?thesis
    by (simp add: onCourse_def)
qed

subsection \<open>Two calls in succession\<close>

lemma calm_trace: "calm opts s s' \<Longrightarrow> \<exists>tr. trace s' = trace s @ tr"
  by (auto simp: calm_def)

lemma publishing_prefix:
  assumes "publishing m (t0 @ tr0) out s"
  shows "publishing m t0 out s"
proof -
  from assms have 1: "\<exists>tr. trace s = t0 @ tr"
    by (auto simp: publishing_def)
  show ?thesis
  proof (cases out)
    case Finished
    with assms obtain tr where
      "trace s = (t0 @ tr0) @ tr @ [SetModelMarkers (uri m) (modelMarkers s (uri m))]"
      by (auto simp: publishing_def)
    then have "trace s = t0 @ (tr0 @ tr) @ [SetModelMarkers (uri m) (modelMarkers s (uri m))]"
      by simp
    then have "\<exists>tr. trace s = t0 @ tr @ [SetModelMarkers (uri m) (modelMarkers s (uri m))]"
      by (rule exI)
    with 1 Finished show ?thesis by (simp add: publishing_def)
  qed (use assms 1 in \<open>simp_all add: publishing_def\<close>)
qed

lemma publishing_setModelMarkers:
  "publishing m (trace s) Finished (setModelMarkers m marks s)"
  by (simp add: publishing_def setModelMarkers_def)

lemma scanLines_publishing:
  "publishing m (trace s) (fst (scanLines opts m li ls marks s))
     (snd (scanLines opts m li ls marks s))"
proof (induction ls arbitrary: li marks s)
  case Nil
  show ?case by (simp add: publishing_setModelMarkers)
next
  case (Cons l ls)
  show ?case
  proof (cases "length marks > 500")
    case True
    then show ?thesis by (simp add: publishing_setModelMarkers)
  next
    case False
    let ?r = "scanWords opts li (theTokenize opts l) marks s"
    have "calm opts s (wordsSession ?r)" by (rule scanWords_calm)
    then obtain tr where tr: "trace (wordsSession ?r) = trace s @ tr"
      by (auto dest: calm_trace)
    show ?thesis
    proof (cases ?r)
      case (WordsDone marks' s')
      have "publishing m (trace s') (fst (scanLines opts m (Suc li) ls marks' s'))
          (snd (scanLines opts m (Suc li) ls marks' s'))"
        by (rule Cons.IH)
      then have "publishing m (trace s) (fst (scanLines opts m (Suc li) ls marks' s'))
          (snd (scanLines opts m (Suc li) ls marks' s'))"
        using tr WordsDone by (auto intro: publishing_prefix)
      then show ?thesis using False WordsDone by simp
    qed (use False tr in \<open>simp_all add: publishing_def\<close>)
  qed
qed

lemma process_publishing:
  assumes "editorModel s = Some m"
  shows "publishing m (trace s) (fst (process opts s)) (snd (process opts s))"
proof (cases "disposed s")
  case True
  then show ?thesis by (simp add: process_def publishing_def)
next
  case False
  then show ?thesis
    using assms scanLines_publishing [of m s opts 0 "splitLines (getValue m)" "[]"]
    by (simp add: process_def)
qed

lemma resume_publishing:
  "publishing (frModel fr) (trace s) (fst (resume opts fr s)) (snd (resume opts fr s))"
proof -
  let ?r = "resumeWords opts (frLineIndex fr) (frPromise fr) (frToken fr) (frWords fr)
              (frMarks fr) s"
  have "calm opts s (wordsSession ?r)" by (rule resumeWords_calm)
  then obtain tr where tr: "trace (wordsSession ?r) = trace s @ tr"
    by (auto dest: calm_trace)
  show ?thesis
  proof (cases ?r)
    case (WordsDone marks' s')
    have "publishing (frModel fr) (trace s')
        (fst (scanLines opts (frModel fr) (Suc (frLineIndex fr)) (frLines fr) marks' s'))
        (snd (scanLines opts (frModel fr) (Suc (frLineIndex fr)) (frLines fr) marks' s'))"
      by (rule scanLines_publishing)
    then have "publishing (frModel fr) (trace s)
        (fst (scanLines opts (frModel fr) (Suc (frLineIndex fr)) (frLines fr) marks' s'))
        (snd (scanLines opts (frModel fr) (Suc (frLineIndex fr)) (frLines fr) marks' s'))"
      using tr WordsDone by (auto intro: publishing_prefix)
    then show ?thesis using WordsDone by (simp add: resume_def)
  qed (use tr in \<open>simp_all add: resume_def publishing_def\<close>)
qed

lemma step_trace: "\<exists>tr. trace (fst (step cr opts e w)) = trace (fst w) @ tr"
proof (cases "e = DoDispose")
  case True
  then show ?thesis by (simp add: step_DoDispose dispose_def)
next
  case False
  then have "calm opts (fst w) (fst (step cr opts e w))" by (rule step_calm)
  then show ?thesis by (rule calm_trace)
qed

lemma run_trace: "\<exists>tr. trace (fst (run cr opts es w)) = trace (fst w) @ tr"
proof (induction es arbitrary: w)
  case Nil
  show ?case by simp
next
  case (Cons e es)
  from step_trace [of cr opts e w] obtain tr1
    where 1: "trace (fst (step cr opts e w)) = trace (fst w) @ tr1" by blast
  from Cons.IH [of "step cr opts e w"] obtain tr2
    where "trace (fst (run cr opts es (step cr opts e w))) = trace (fst (step cr opts e w)) @ tr2"
    by blast
  with 1 show ?case by simp
qed

lemma follow_publishing:
  "publishing m t0 out s \<Longrightarrow>
   follow cr opts ess (out, s, pool) = (out', s', pool') \<Longrightarrow>
   publishing m t0 out' s'"
proof (induction ess arbitrary: out s pool)
  case Nil
  then show ?case by simp
next
  case (Cons es ess)
  show ?case
  proof (cases out)
    case (Suspended fr)
    obtain s1 pool1 where r: "run cr opts es (s, pool) = (s1, pool1)"
      by (cases "run cr opts es (s, pool)")
    obtain out1 s2 where q: "resume opts fr s1 = (out1, s2)"
      by (cases "resume opts fr s1")
    from Cons.prems(1) Suspended obtain tr0 where t0: "trace s = t0 @ tr0"
        and fm: "frModel fr = m"
      by (auto simp: publishing_def)
    from run_trace [of cr opts es "(s, pool)"] r obtain tr1 where "trace s1 = trace s @ tr1"
      by auto
    with t0 have t1: "trace s1 = t0 @ (tr0 @ tr1)" by simp
    have "publishing m (trace s1) out1 s2"
      using resume_publishing [of fr s1 opts] q fm by simp
    then have "publishing m t0 out1 s2"
      unfolding t1 by (rule publishing_prefix)
    moreover have "follow cr opts ess (out1, s2, pool1) = (out', s', pool')"
      using Cons.prems(2) Suspended r q by simp
    ultimately show ?thesis by (rule Cons.IH)
  qed (use Cons.prems in simp_all)
qed

lemma processCall_published:
  assumes "editorModel s = Some m"
    and "processCall cr opts ess (s, pool) = (Finished, s', pool')"
  shows "\<exists>tr. trace s' = trace s @ tr @ [SetModelMarkers (uri m) (modelMarkers s' (uri m))]"
proof -
  obtain out s1 where p: "process opts s = (out, s1)"
    by (cases "process opts s")
  have "publishing m (trace s) out s1"
    using process_publishing [OF assms(1), of opts] p by simp
  moreover have "follow cr opts ess (out, s1, pool) = (Finished, s', pool')"
    using assms(2) p by (simp add: processCall_def)
  ultimately have "publishing m (trace s) Finished s'"
    by (rule follow_publishing)
  then show ?thesis by (simp add: publishing_def)
qed

text \<open>
  C8. Under a deterministic checker, let two calls of \<open>process()\<close> complete, the second
  started in the session the first left, on the same model with the same text. Then each
  of them has called \<open>setModelMarkers\<close> as the last thing it did, after whatever was
  recorded before it started, and both have published the same list of markers for the
  model, the list the marker store holds after either; whatever happens while either is
  suspended.
\<close>

theorem process_twice:
  assumes "judges opts v"
    and "editorModel s = Some m"
    and "processCall cr opts ess (s, pool) = (Finished, s1, pool1)"
    and "editorModel s1 = Some m"
    and "processCall cr opts ess' (s1, pool1) = (Finished, s2, pool2)"
  shows "\<exists>published tr1 tr2.
           trace s1 = trace s @ tr1 @ [SetModelMarkers (uri m) published]
         \<and> trace s2 = trace s1 @ tr2 @ [SetModelMarkers (uri m) published]
         \<and> modelMarkers s1 (uri m) = published
         \<and> modelMarkers s2 (uri m) = published"
proof -
  have eq: "modelMarkers s2 (uri m) = modelMarkers s1 (uri m)"
    using processCall_Finished [OF assms(1,2,3)] processCall_Finished [OF assms(1,4,5)]
    by simp
  from processCall_published [OF assms(2,3)] obtain tr1 where
    1: "trace s1 = trace s @ tr1 @ [SetModelMarkers (uri m) (modelMarkers s1 (uri m))]"
    by blast
  from processCall_published [OF assms(4,5)] obtain tr2 where
    2: "trace s2 = trace s1 @ tr2 @ [SetModelMarkers (uri m) (modelMarkers s2 (uri m))]"
    by blast
  from 1 2 eq show ?thesis by metis
qed

theorem process_twice_witness:
  "fst (processCall containsRange countingOptions [[DoEmbedder Suc], [], []] (countingSession, []))
     = Finished
   \<and> fst (processCall containsRange countingOptions [[], [DoEmbedder Suc], []]
          (snd (processCall containsRange countingOptions [[DoEmbedder Suc], [], []]
                  (countingSession, []))))
     = Finished
   \<and> modelMarkers
       (fst (snd (processCall containsRange countingOptions [[], [DoEmbedder Suc], []]
          (snd (processCall containsRange countingOptions [[DoEmbedder Suc], [], []]
                  (countingSession, []))))))
       (uri exampleModel)
     = modelMarkers
       (fst (snd (processCall containsRange countingOptions [[DoEmbedder Suc], [], []]
                    (countingSession, []))))
       (uri exampleModel)
   \<and> publications (trace
       (fst (snd (processCall containsRange countingOptions [[], [DoEmbedder Suc], []]
          (snd (processCall containsRange countingOptions [[DoEmbedder Suc], [], []]
                  (countingSession, [])))))))
     = [(uri exampleModel,
         modelMarkers
           (fst (snd (processCall containsRange countingOptions [[DoEmbedder Suc], [], []]
                        (countingSession, []))))
           (uri exampleModel)),
        (uri exampleModel,
         modelMarkers
           (fst (snd (processCall containsRange countingOptions [[DoEmbedder Suc], [], []]
                        (countingSession, []))))
           (uri exampleModel))]"
proof -
  define r1 where
    "r1 = processCall containsRange countingOptions [[DoEmbedder Suc], [], []] (countingSession, [])"
  define r2 where
    "r2 = processCall containsRange countingOptions [[], [DoEmbedder Suc], []] (snd r1)"
  have 1: "judges countingOptions (\<lambda>w. Some (inDictionary w))"
    by (simp add: judges_def countingOptions_def countingCheck_def verdict_def)
  have 2: "editorModel countingSession = Some exampleModel"
    by (simp add: countingSession_def getSpellchecker_def)
  have 3: "fst r1 = Finished"
    unfolding r1_def by code_simp
  have 4: "editorModel (fst (snd r1)) = Some exampleModel"
    unfolding r1_def by code_simp
  have 5: "fst r2 = Finished"
    unfolding r2_def r1_def by code_simp
  have 6: "processCall containsRange countingOptions [[DoEmbedder Suc], [], []] (countingSession, [])
      = (Finished, fst (snd r1), snd (snd r1))"
    using 3 by (simp add: r1_def [symmetric] prod_eq_iff)
  have 7: "processCall containsRange countingOptions [[], [DoEmbedder Suc], []]
        (fst (snd r1), snd (snd r1))
      = (Finished, fst (snd r2), snd (snd r2))"
    using 5 by (simp add: r2_def [symmetric] prod_eq_iff)
  have 8: "publications (trace (fst (snd r2)))
      = [(uri exampleModel, modelMarkers (fst (snd r1)) (uri exampleModel)),
         (uri exampleModel, modelMarkers (fst (snd r1)) (uri exampleModel))]"
    unfolding r2_def r1_def by code_simp
  from process_twice [OF 1 2 6 4 7]
  have "modelMarkers (fst (snd r2)) (uri exampleModel)
      = modelMarkers (fst (snd r1)) (uri exampleModel)"
    by auto
  with 3 5 8 show ?thesis unfolding r2_def r1_def by simp
qed

subsection \<open>A call that is left alone completes\<close>

lemma scanWords_advancing:
  assumes "\<forall>d w. verdict (fst (check opts d w)) \<noteq> None" and "\<not> disposed s"
  shows "wordsAdvancing (length ts) (scanWords opts li ts marks s)"
  using assms(2)
proof (induction ts arbitrary: marks s)
  case Nil
  then show ?case by simp
next
  case (Cons t ts)
  obtain r d where c: "check opts (ext s) (word t) = (r, d)"
    by (cases "check opts (ext s) (word t)")
  have vr: "verdict r \<noteq> None"
    using assms(1) c by (metis fst_conv)
  define s1 where "s1 = s\<lparr>ext := d, trace := trace s @ [CallCheck (word t)]\<rparr>"
  have d1: "\<not> disposed s1" using Cons.prems by (simp add: s1_def)
  show ?case
  proof (cases r)
    case (Returns b)
    obtain marks' s2 where m: "markToken opts li t b marks s1 = (marks', s2)"
      by (cases "markToken opts li t b marks s1")
    then have "\<not> disposed s2"
      using d1 by (auto simp: markToken_def split: if_splits)
    then have "wordsAdvancing (length ts) (scanWords opts li ts marks' s2)"
      by (rule Cons.IH)
    then have "wordsAdvancing (Suc (length ts)) (scanWords opts li ts marks' s2)"
      by (cases "scanWords opts li ts marks' s2") simp_all
    then show ?thesis
      using c Returns m d1 Cons.prems by (simp add: s1_def [symmetric])
  next
    case (Resolves b)
    then show ?thesis using c d1 by (simp add: s1_def [symmetric])
  next
    case Throws
    with vr show ?thesis by (simp add: verdict_def)
  next
    case Rejects
    with vr show ?thesis by (simp add: verdict_def)
  qed
qed

lemma resumeWords_advancing:
  assumes "\<forall>d w. verdict (fst (check opts d w)) \<noteq> None" and "\<not> disposed s" and "p \<noteq> None"
  shows "wordsAdvancing (length ts) (resumeWords opts li p t ts marks s)"
proof -
  from assms(3) obtain b where p: "p = Some b" by auto
  obtain marks' s2 where m: "markToken opts li t b marks s = (marks', s2)"
    by (cases "markToken opts li t b marks s")
  then have "\<not> disposed s2"
    using assms(2) by (auto simp: markToken_def split: if_splits)
  with assms(1) have "wordsAdvancing (length ts) (scanWords opts li ts marks' s2)"
    by (rule scanWords_advancing)
  then show ?thesis
    using p m assms(2) by (simp add: resumeWords_def)
qed

lemma advancing_mono: "advancing opts n out s \<Longrightarrow> n \<le> n' \<Longrightarrow> advancing opts n' out s"
  by (auto simp: advancing_def split: outcome.splits)

lemma scanLines_advancing:
  assumes "\<forall>d w. verdict (fst (check opts d w)) \<noteq> None" and "\<not> disposed s"
  shows "advancing opts (length (indexedTokens opts (enumerate li ls)))
           (fst (scanLines opts m li ls marks s)) (snd (scanLines opts m li ls marks s))"
  using assms(2)
proof (induction ls arbitrary: li marks s)
  case Nil
  then show ?case by (simp add: advancing_def setModelMarkers_def)
next
  case (Cons l ls)
  show ?case
  proof (cases "length marks > 500")
    case True
    then show ?thesis using Cons.prems by (simp add: advancing_def setModelMarkers_def)
  next
    case False
    let ?ts = "theTokenize opts l"
    have w: "wordsAdvancing (length ?ts) (scanWords opts li ?ts marks s)"
      using assms(1) Cons.prems by (rule scanWords_advancing)
    show ?thesis
    proof (cases "scanWords opts li ?ts marks s")
      case (WordsDone marks' s')
      with w have "\<not> disposed s'" by simp
      then have "advancing opts (length (indexedTokens opts (enumerate (Suc li) ls)))
          (fst (scanLines opts m (Suc li) ls marks' s'))
          (snd (scanLines opts m (Suc li) ls marks' s'))"
        by (rule Cons.IH)
      then have "advancing opts (length (indexedTokens opts (enumerate li (l # ls))))
          (fst (scanLines opts m (Suc li) ls marks' s'))
          (snd (scanLines opts m (Suc li) ls marks' s'))"
        by (rule advancing_mono) (simp add: indexedTokens_Cons)
      then show ?thesis using False WordsDone by simp
    next
      case (WordsAwait p t ts marks' s')
      with w show ?thesis
        using False by (simp add: advancing_def remaining_def indexedTokens_Cons)
    qed (use w in simp_all)
  qed
qed

lemma resume_advancing:
  assumes "\<forall>d w. verdict (fst (check opts d w)) \<noteq> None"
    and "advancing opts (Suc n) (Suspended fr) s"
  shows "advancing opts n (fst (resume opts fr s)) (snd (resume opts fr s))"
proof -
  from assms(2) have d: "\<not> disposed s" and p: "frPromise fr \<noteq> None"
      and n: "remaining opts fr \<le> Suc n"
    by (simp_all add: advancing_def)
  let ?r = "resumeWords opts (frLineIndex fr) (frPromise fr) (frToken fr) (frWords fr)
              (frMarks fr) s"
  have w: "wordsAdvancing (length (frWords fr)) ?r"
    using assms(1) d p by (rule resumeWords_advancing)
  show ?thesis
  proof (cases ?r)
    case (WordsDone marks' s')
    with w have "\<not> disposed s'" by simp
    with assms(1) have "advancing opts
        (length (indexedTokens opts (enumerate (Suc (frLineIndex fr)) (frLines fr))))
        (fst (scanLines opts (frModel fr) (Suc (frLineIndex fr)) (frLines fr) marks' s'))
        (snd (scanLines opts (frModel fr) (Suc (frLineIndex fr)) (frLines fr) marks' s'))"
      by (rule scanLines_advancing)
    then have "advancing opts n
        (fst (scanLines opts (frModel fr) (Suc (frLineIndex fr)) (frLines fr) marks' s'))
        (snd (scanLines opts (frModel fr) (Suc (frLineIndex fr)) (frLines fr) marks' s'))"
      using n by (elim advancing_mono) (simp add: remaining_def)
    then show ?thesis using WordsDone by (simp add: resume_def)
  next
    case (WordsAwait p' t ts marks' s')
    with w show ?thesis
      using n by (simp add: resume_def advancing_def remaining_def)
  qed (use w in simp_all)
qed

lemma follow_alone_completes:
  assumes "\<forall>d w. verdict (fst (check opts d w)) \<noteq> None"
  shows "advancing opts n out s \<Longrightarrow>
         fst (follow cr opts (replicate n []) (out, s, pool)) = Finished"
proof (induction n arbitrary: out s)
  case 0
  then show ?case
    by (cases out) (simp_all add: advancing_def remaining_def)
next
  case (Suc n)
  show ?case
  proof (cases out)
    case (Suspended fr)
    have "advancing opts n (fst (resume opts fr s)) (snd (resume opts fr s))"
      using assms Suc.prems Suspended by (simp add: resume_advancing)
    then have "fst (follow cr opts (replicate n [])
        (fst (resume opts fr s), snd (resume opts fr s), pool)) = Finished"
      by (rule Suc.IH)
    then show ?thesis
      using Suspended by (simp add: split_beta)
  qed (use Suc.prems in \<open>simp_all add: advancing_def\<close>)
qed

lemma processCall_completes:
  assumes "\<forall>d w. verdict (fst (check opts d w)) \<noteq> None"
    and "\<not> disposed s" and "editorModel s = Some m"
    and "length (docTokens opts (getValue m)) \<le> n"
  shows "fst (processCall cr opts (replicate n []) (s, pool)) = Finished"
proof -
  have "advancing opts (length (docTokens opts (getValue m)))
      (fst (process opts s)) (snd (process opts s))"
    using assms(2,3) scanLines_advancing [OF assms(1,2)]
    by (simp add: process_def docTokens_def)
  then have "advancing opts n (fst (process opts s)) (snd (process opts s))"
    using assms(4) by (rule advancing_mono)
  then have "fst (follow cr opts (replicate n [])
      (fst (process opts s), snd (process opts s), pool)) = Finished"
    by (rule follow_alone_completes [OF assms(1)])
  then show ?thesis
    by (simp add: processCall_def split_beta)
qed

subsection \<open>The long document\<close>

lemma splitFrom_line:
  "CHR 0x0A \<notin> set l \<Longrightarrow> splitFrom cur (l @ CHR 0x0A # tx) = (rev cur @ l) # splitFrom [] tx"
  by (induction l arbitrary: cur) auto

lemma splitFrom_replicate:
  "CHR 0x0A \<notin> set l \<Longrightarrow>
     splitFrom [] (concat (replicate n (l @ [CHR 0x0A])) @ tx) = replicate n l @ splitFrom [] tx"
  by (induction n) (simp_all add: splitFrom_line)

lemma splitLines_longText: "splitLines longText = replicate 500 ''xx'' @ [''xx yy zz'']"
  unfolding splitLines_def longText_def by (subst splitFrom_replicate) simp_all

lemma indexedTokens_append:
  "indexedTokens opts (xs @ ys) = indexedTokens opts xs @ indexedTokens opts ys"
  by (simp add: indexedTokens_def)

lemma misspelled_replicate:
  assumes "theTokenize opts l = [t]" and "misspelled v t"
  shows "length (filter (\<lambda>(j, t). misspelled v t) (indexedTokens opts (enumerate li (replicate n l))))
           = n"
  using assms by (induction n arbitrary: li) (simp_all add: indexedTokens_Nil indexedTokens_Cons)

lemma linesMarks_append:
  assumes "length marks
             + length (filter (\<lambda>(j, t). misspelled v t) (indexedTokens opts (enumerate li ls)))
           \<le> 500"
  shows "linesMarks opts v li (ls @ ls') marks =
           linesMarks opts v (li + length ls) ls'
             (marks @ map (\<lambda>(j, t). newMarker opts j t)
                        (filter (\<lambda>(j, t). misspelled v t) (indexedTokens opts (enumerate li ls))))"
  using assms
proof (induction ls arbitrary: li marks)
  case Nil
  show ?case by (simp add: indexedTokens_Nil)
next
  case (Cons l ls)
  let ?new = "tokensMarks opts v li (theTokenize opts l)"
  have n: "length marks \<le> 500" using Cons.prems by simp
  have "length (marks @ ?new)
          + length (filter (\<lambda>(j, t). misspelled v t) (indexedTokens opts (enumerate (Suc li) ls)))
        \<le> 500"
    using Cons.prems by (simp add: indexedTokens_Cons tokensMarks_indexed)
  then have "linesMarks opts v (Suc li) (ls @ ls') (marks @ ?new) =
      linesMarks opts v (Suc li + length ls) ls'
        ((marks @ ?new) @ map (\<lambda>(j, t). newMarker opts j t)
           (filter (\<lambda>(j, t). misspelled v t) (indexedTokens opts (enumerate (Suc li) ls))))"
    by (rule Cons.IH)
  then show ?case
    using n by (simp add: indexedTokens_Cons tokensMarks_indexed)
qed

lemma tokenize_xx: "theTokenize countingOptions ''xx'' = [\<lparr>word = ''xx'', pos = 0\<rparr>]"
  by code_simp

lemma tokenize_last:
  "theTokenize countingOptions ''xx yy zz'' =
     [\<lparr>word = ''xx'', pos = 0\<rparr>, \<lparr>word = ''yy'', pos = 3\<rparr>, \<lparr>word = ''zz'', pos = 6\<rparr>]"
  by code_simp

lemma misspelled_xx: "misspelled (\<lambda>w. Some (inDictionary w)) \<lparr>word = ''xx'', pos = 0\<rparr>"
  by (simp add: misspelled_def inDictionary_def)

lemma longText_first_lines:
  "length (filter (\<lambda>(j, t). misspelled (\<lambda>w. Some (inDictionary w)) t)
     (indexedTokens countingOptions (enumerate 0 (replicate 500 ''xx'')))) = 500"
  using tokenize_xx misspelled_xx by (rule misspelled_replicate)

lemma longText_misspelled:
  "length (misspelledTokens countingOptions inDictionary longText) = 503"
proof -
  have "filter (\<lambda>(j, t). misspelled (\<lambda>w. Some (inDictionary w)) t)
      (indexedTokens countingOptions (enumerate 500 [''xx yy zz'']))
      = [(500, \<lparr>word = ''xx'', pos = 0\<rparr>), (500, \<lparr>word = ''yy'', pos = 3\<rparr>),
         (500, \<lparr>word = ''zz'', pos = 6\<rparr>)]"
    by (simp add: indexedTokens_Cons indexedTokens_Nil tokenize_last misspelled_def
        inDictionary_def)
  then show ?thesis
    using longText_first_lines
    by (simp add: misspelledTokens_indexed splitLines_longText enumerate_append_eq
        indexedTokens_append)
qed

lemma longText_docTokens: "length (docTokens countingOptions longText) = 503"
proof -
  have "length (indexedTokens countingOptions (enumerate li (replicate n ''xx''))) = n" for li n
    by (induction n arbitrary: li) (simp_all add: indexedTokens_Nil indexedTokens_Cons tokenize_xx)
  then show ?thesis
    by (simp add: docTokens_def splitLines_longText enumerate_append_eq indexedTokens_append
        indexedTokens_Cons indexedTokens_Nil tokenize_last)
qed

lemma longText_linesMarks:
  "length (linesMarks countingOptions (\<lambda>w. Some (inDictionary w)) 0 (splitLines longText) []) = 503"
proof -
  let ?v = "\<lambda>w. Some (inDictionary w)"
  let ?first = "filter (\<lambda>(j, t). misspelled ?v t)
      (indexedTokens countingOptions (enumerate 0 (replicate 500 ''xx'')))"
  have "linesMarks countingOptions ?v 0 (replicate 500 ''xx'' @ [''xx yy zz'']) [] =
      linesMarks countingOptions ?v (0 + length (replicate 500 ''xx'')) [''xx yy zz'']
        ([] @ map (\<lambda>(j, t). newMarker countingOptions j t) ?first)"
    by (rule linesMarks_append) (simp add: longText_first_lines)
  then show ?thesis
    using longText_first_lines
    by (simp add: splitLines_longText tokenize_last tokensMarks_def misspelled_def inDictionary_def)
qed

lemma countingOptions_verdict:
  "\<forall>d w. verdict (fst (check countingOptions d w)) = Some (inDictionary w)"
  by (simp add: countingOptions_def countingCheck_def verdict_def)

lemma longSession_completes:
  "fst (processCall containsRange countingOptions (replicate 503 []) (longSession, [])) = Finished"
proof (rule processCall_completes)
  show "\<forall>d w. verdict (fst (check countingOptions d w)) \<noteq> None"
    using countingOptions_verdict by simp
  show "\<not> disposed longSession"
    by (simp add: longSession_def getSpellchecker_def)
  show "editorModel longSession = Some longModel"
    by (simp add: longSession_def getSpellchecker_def)
  show "length (docTokens countingOptions (getValue longModel)) \<le> 503"
    by (simp add: longModel_def longText_docTokens)
qed

text \<open>
  C1, as the code has it. Let the checker answer every word with the verdict \<open>correct\<close>
  gives it, without throwing, and let the document hold more than 500 misspelled tokens.
  The cap is tested at the head of each line only, so a call of \<open>process()\<close> that completes
  has scanned whole lines: there is a line \<open>k\<close> such that at most 500 misspelled tokens
  lie on the lines before \<open>k\<close>, more than 500 on the lines up to and including \<open>k\<close>, and
  the markers published are exactly those of the misspelled tokens on the lines up to and
  including \<open>k\<close>. More than 500 markers are published. When nothing else happens while
  the call is suspended, the calls it has made are exactly the checks of the tokens on the
  lines up to and including \<open>k\<close>, each followed by the building of the message when the
  token is misspelled, and then the one publication: no token of a later line is checked.
\<close>

theorem process_stops_at_line_over_cap:
  assumes "\<forall>d w. verdict (fst (check opts d w)) = Some (correct w)"
    and "editorModel s = Some m"
    and "500 < length (misspelledTokens opts correct (getValue m))"
    and "processCall cr opts ess (s, pool) = (Finished, s', pool')"
  shows "\<exists>k. modelMarkers s' (uri m) =
            map (\<lambda>(lineIndex, t). newMarker opts lineIndex t)
              (filter (\<lambda>(lineIndex, t). lineIndex \<le> k) (misspelledTokens opts correct (getValue m)))
        \<and> length (filter (\<lambda>(lineIndex, t). lineIndex < k)
                     (misspelledTokens opts correct (getValue m))) \<le> 500
        \<and> 500 < length (modelMarkers s' (uri m))
        \<and> ((\<forall>es \<in> set ess. es = []) \<longrightarrow>
             trace s' = trace s
               @ scanCalls correct
                   (filter (\<lambda>(lineIndex, t). lineIndex \<le> k) (docTokens opts (getValue m)))
               @ [SetModelMarkers (uri m) (modelMarkers s' (uri m))])"
proof -
  let ?v = "\<lambda>w. Some (correct w)"
  let ?lines = "splitLines (getValue m)"
  let ?mis = "misspelledTokens opts correct (getValue m)"
  let ?mk = "\<lambda>(lineIndex, t). newMarker opts lineIndex t"
  have j: "judges opts ?v" using assms(1) by (rule judges_const)
  have pub: "modelMarkers s' (uri m) = linesMarks opts ?v 0 ?lines []"
    using j assms(2,4) by (rule processCall_Finished)
  from linesMarks_cut [of ?lines opts ?v 0 "[]"] obtain K where K: "K \<le> length ?lines"
    and m: "linesMarks opts ?v 0 ?lines [] =
        map ?mk (filter (\<lambda>(j, t). misspelled ?v t) (indexedTokens opts (enumerate 0 (take K ?lines))))"
    and c: "linesCalls opts ?v 0 ?lines [] =
        tokensCalls ?v (map snd (indexedTokens opts (enumerate 0 (take K ?lines))))"
    and b: "\<forall>j < K. length (filter (\<lambda>(j, t). misspelled ?v t)
                (indexedTokens opts (enumerate 0 (take j ?lines)))) \<le> 500"
    and e: "K < length ?lines \<longrightarrow> 500 < length (linesMarks opts ?v 0 ?lines [])"
    by auto
  have m': "linesMarks opts ?v 0 ?lines [] = map ?mk (filter (\<lambda>(j, t). j < K) ?mis)"
    using m by (simp add: misspelledTokens_lines)
  have big: "500 < length (linesMarks opts ?v 0 ?lines [])"
  proof (cases "K < length ?lines")
    case True
    with e show ?thesis by simp
  next
    case False
    with K have "take K ?lines = ?lines" by simp
    with m have "linesMarks opts ?v 0 ?lines [] = map ?mk ?mis"
      by (simp add: misspelledTokens_indexed)
    with assms(3) show ?thesis by simp
  qed
  have "K \<noteq> 0"
  proof
    assume "K = 0"
    then have "filter (\<lambda>(j :: nat, t :: token). j < K) ?mis = []"
      by (simp add: filter_empty_conv split_beta)
    with big m' show False by simp
  qed
  then obtain k where k: "K = Suc k" by (cases K) simp_all
  have le: "(\<lambda>(j :: nat, t :: token). j < Suc k) = (\<lambda>(j, t). j \<le> k)"
    by (auto simp: fun_eq_iff)
  have 1: "modelMarkers s' (uri m) = map ?mk (filter (\<lambda>(j, t). j \<le> k) ?mis)"
    using pub m' k le by simp
  have 2: "length (filter (\<lambda>(j, t). j < k) ?mis) \<le> 500"
    using b k by (simp add: misspelledTokens_lines)
  have 3: "500 < length (modelMarkers s' (uri m))"
    using pub big by simp
  have 4: "trace s' = trace s
      @ scanCalls correct (filter (\<lambda>(j, t). j \<le> k) (docTokens opts (getValue m)))
      @ [SetModelMarkers (uri m) (modelMarkers s' (uri m))]"
    if "\<forall>es \<in> set ess. es = []"
  proof -
    have "linesCalls opts ?v 0 ?lines [] =
        scanCalls correct (filter (\<lambda>(j, t). j < Suc k) (docTokens opts (getValue m)))"
      using c k by (simp add: tokensCalls_scanCalls docTokens_lines)
    then show ?thesis
      using processCall_alone_Finished [OF j assms(2,4) that] pub le by simp
  qed
  from 1 2 3 4 show ?thesis by blast
qed


theorem process_stops_at_line_over_cap_witness:
  "length (misspelledTokens countingOptions inDictionary (getValue longModel)) = 503
   \<and> fst (processCall containsRange countingOptions (replicate 503 []) (longSession, [])) = Finished
   \<and> 500 < length (modelMarkers
        (fst (snd (processCall containsRange countingOptions (replicate 503 []) (longSession, []))))
        (uri longModel))"
proof -
  define r where
    "r = processCall containsRange countingOptions (replicate 503 []) (longSession, [])"
  have 2: "editorModel longSession = Some longModel"
    by (simp add: longSession_def getSpellchecker_def)
  have 3: "length (misspelledTokens countingOptions inDictionary (getValue longModel)) = 503"
    by (simp add: longModel_def longText_misspelled)
  then have 6: "500 < length (misspelledTokens countingOptions inDictionary (getValue longModel))"
    by simp
  have 4: "fst r = Finished"
    unfolding r_def by (rule longSession_completes)
  then have 5: "processCall containsRange countingOptions (replicate 503 []) (longSession, [])
      = (Finished, fst (snd r), snd (snd r))"
    by (simp add: r_def [symmetric] prod_eq_iff)
  from process_stops_at_line_over_cap [OF countingOptions_verdict 2 6 5]
  have "500 < length (modelMarkers (fst (snd r)) (uri longModel))"
    by blast
  with 3 4 show ?thesis unfolding r_def by simp
qed

text \<open>
  The cap is not a bound on what is published: on the document of 501 lines whose last
  line holds the 501st, 502nd and 503rd misspelled word, the call completes and publishes
  503 markers.
\<close>

theorem process_publishes_beyond_cap:
  "length (misspelledTokens countingOptions inDictionary (getValue longModel)) = 503
   \<and> fst (processCall containsRange countingOptions (replicate 503 []) (longSession, [])) = Finished
   \<and> length (modelMarkers
        (fst (snd (processCall containsRange countingOptions (replicate 503 []) (longSession, []))))
        (uri longModel)) = 503"
proof -
  define r where
    "r = processCall containsRange countingOptions (replicate 503 []) (longSession, [])"
  have 1: "judges countingOptions (\<lambda>w. Some (inDictionary w))"
    using countingOptions_verdict by (rule judges_const)
  have 2: "editorModel longSession = Some longModel"
    by (simp add: longSession_def getSpellchecker_def)
  have 3: "length (misspelledTokens countingOptions inDictionary (getValue longModel)) = 503"
    by (simp add: longModel_def longText_misspelled)
  have 4: "fst r = Finished"
    unfolding r_def by (rule longSession_completes)
  then have 5: "processCall containsRange countingOptions (replicate 503 []) (longSession, [])
      = (Finished, fst (snd r), snd (snd r))"
    by (simp add: r_def [symmetric] prod_eq_iff)
  have "modelMarkers (fst (snd r)) (uri longModel)
      = linesMarks countingOptions (\<lambda>w. Some (inDictionary w)) 0 (splitLines (getValue longModel)) []"
    using 1 2 5 by (rule processCall_Finished)
  then have "length (modelMarkers (fst (snd r)) (uri longModel)) = 503"
    by (simp add: longModel_def longText_linesMarks)
  with 3 4 show ?thesis unfolding r_def by simp
qed

subsection \<open>Every published marker is the marker of a token\<close>

lemma markersOf_Cons:
  "markersOf opts ((li, t) # its) = insert (newMarker opts li t) (markersOf opts its)"
  by (simp add: markersOf_def)

lemma markersOf_append: "markersOf opts (xs @ ys) = markersOf opts xs \<union> markersOf opts ys"
  by (auto simp: markersOf_def)

lemma wordsWithin_mono: "wordsWithin opts li M r \<Longrightarrow> M \<subseteq> M' \<Longrightarrow> wordsWithin opts li M' r"
  by (cases r) auto

lemma within_mono: "within opts m M out s \<Longrightarrow> M \<subseteq> M' \<Longrightarrow> within opts m M' out s"
  by (cases out) (auto simp: within_def)

lemma scanWords_within:
  "wordsWithin opts li (set marks \<union> markersOf opts (map (Pair li) ts))
     (scanWords opts li ts marks s)"
proof (induction ts arbitrary: marks s)
  case Nil
  show ?case by simp
next
  case (Cons t ts)
  obtain r d where c: "check opts (ext s) (word t) = (r, d)"
    by (cases "check opts (ext s) (word t)")
  define s1 where "s1 = s\<lparr>ext := d, trace := trace s @ [CallCheck (word t)]\<rparr>"
  show ?case
  proof (cases r)
    case (Returns b)
    obtain marks' s2 where m: "markToken opts li t b marks s1 = (marks', s2)"
      by (cases "markToken opts li t b marks s1")
    then have sub: "set marks' \<subseteq> insert (newMarker opts li t) (set marks)"
      by (auto simp: markToken_def split: if_splits)
    have "wordsWithin opts li (set marks' \<union> markersOf opts (map (Pair li) ts))
        (scanWords opts li ts marks' s2)"
      by (rule Cons.IH)
    then have "wordsWithin opts li (set marks \<union> markersOf opts (map (Pair li) (t # ts)))
        (scanWords opts li ts marks' s2)"
      by (rule wordsWithin_mono) (use sub in \<open>auto simp: markersOf_Cons\<close>)
    then show ?thesis
      using c Returns m by (simp add: s1_def [symmetric])
  qed (use c in \<open>simp_all add: s1_def [symmetric]\<close>)
qed

lemma resumeWords_within:
  "wordsWithin opts li (set marks \<union> markersOf opts (map (Pair li) (t # ts)))
     (resumeWords opts li p t ts marks s)"
proof (cases p)
  case None
  then show ?thesis by (simp add: resumeWords_def)
next
  case (Some b)
  obtain marks' s2 where m: "markToken opts li t b marks s = (marks', s2)"
    by (cases "markToken opts li t b marks s")
  then have sub: "set marks' \<subseteq> insert (newMarker opts li t) (set marks)"
    by (auto simp: markToken_def split: if_splits)
  have "wordsWithin opts li (set marks' \<union> markersOf opts (map (Pair li) ts))
      (scanWords opts li ts marks' s2)"
    by (rule scanWords_within)
  then have "wordsWithin opts li (set marks \<union> markersOf opts (map (Pair li) (t # ts)))
      (scanWords opts li ts marks' s2)"
    by (rule wordsWithin_mono) (use sub in \<open>auto simp: markersOf_Cons\<close>)
  then show ?thesis
    using Some m by (simp add: resumeWords_def)
qed

lemma scanLines_within:
  "within opts m (set marks \<union> markersOf opts (indexedTokens opts (enumerate li ls)))
     (fst (scanLines opts m li ls marks s)) (snd (scanLines opts m li ls marks s))"
proof (induction ls arbitrary: li marks s)
  case Nil
  show ?case by (simp add: within_def setModelMarkers_def)
next
  case (Cons l ls)
  show ?case
  proof (cases "length marks > 500")
    case True
    then show ?thesis by (simp add: within_def setModelMarkers_def)
  next
    case False
    let ?ts = "theTokenize opts l"
    have w: "wordsWithin opts li (set marks \<union> markersOf opts (map (Pair li) ?ts))
        (scanWords opts li ?ts marks s)"
      by (rule scanWords_within)
    show ?thesis
    proof (cases "scanWords opts li ?ts marks s")
      case (WordsDone marks' s')
      with w have sub: "set marks' \<subseteq> set marks \<union> markersOf opts (map (Pair li) ?ts)"
        by simp
      have "within opts m
          (set marks' \<union> markersOf opts (indexedTokens opts (enumerate (Suc li) ls)))
          (fst (scanLines opts m (Suc li) ls marks' s'))
          (snd (scanLines opts m (Suc li) ls marks' s'))"
        by (rule Cons.IH)
      then have "within opts m
          (set marks \<union> markersOf opts (indexedTokens opts (enumerate li (l # ls))))
          (fst (scanLines opts m (Suc li) ls marks' s'))
          (snd (scanLines opts m (Suc li) ls marks' s'))"
        by (rule within_mono) (use sub in \<open>auto simp: indexedTokens_Cons markersOf_append\<close>)
      then show ?thesis using False WordsDone by simp
    next
      case (WordsAwait p t ts marks' s')
      with w have "set marks' \<union> markersOf opts (map (Pair li) (t # ts))
          \<subseteq> set marks \<union> markersOf opts (map (Pair li) ?ts)"
        by simp
      then show ?thesis
        using False WordsAwait
        by (auto simp: within_def frameMarkers_def indexedTokens_Cons markersOf_append)
    qed (use False in \<open>simp_all add: within_def\<close>)
  qed
qed

lemma resume_within:
  assumes "within opts m M (Suspended fr) s0"
  shows "within opts m M (fst (resume opts fr s)) (snd (resume opts fr s))"
proof -
  from assms have fm: "frModel fr = m" and sub: "frameMarkers opts fr \<subseteq> M"
    by (simp_all add: within_def)
  let ?li = "frLineIndex fr"
  let ?r = "resumeWords opts ?li (frPromise fr) (frToken fr) (frWords fr) (frMarks fr) s"
  let ?rest = "markersOf opts (indexedTokens opts (enumerate (Suc ?li) (frLines fr)))"
  have w: "wordsWithin opts ?li
      (set (frMarks fr) \<union> markersOf opts (map (Pair ?li) (frToken fr # frWords fr))) ?r"
    by (rule resumeWords_within)
  show ?thesis
  proof (cases ?r)
    case (WordsDone marks' s')
    with w have s1: "set marks'
        \<subseteq> set (frMarks fr) \<union> markersOf opts (map (Pair ?li) (frToken fr # frWords fr))"
      by simp
    have "within opts m (set marks' \<union> ?rest)
        (fst (scanLines opts m (Suc ?li) (frLines fr) marks' s'))
        (snd (scanLines opts m (Suc ?li) (frLines fr) marks' s'))"
      by (rule scanLines_within)
    then have "within opts m M
        (fst (scanLines opts m (Suc ?li) (frLines fr) marks' s'))
        (snd (scanLines opts m (Suc ?li) (frLines fr) marks' s'))"
      by (rule within_mono) (use s1 sub in \<open>auto simp: frameMarkers_def\<close>)
    then show ?thesis using WordsDone fm by (simp add: resume_def)
  next
    case (WordsAwait p t ts marks' s')
    with w have "set marks' \<union> markersOf opts (map (Pair ?li) (t # ts))
        \<subseteq> set (frMarks fr) \<union> markersOf opts (map (Pair ?li) (frToken fr # frWords fr))"
      by simp
    then show ?thesis
      using WordsAwait fm sub
      by (auto simp: resume_def within_def frameMarkers_def)
  qed (simp_all add: resume_def within_def)
qed

lemma follow_within:
  "within opts m M out s \<Longrightarrow>
   follow cr opts ess (out, s, pool) = (out', s', pool') \<Longrightarrow>
   within opts m M out' s'"
proof (induction ess arbitrary: out s pool)
  case Nil
  then show ?case by simp
next
  case (Cons es ess)
  show ?case
  proof (cases out)
    case (Suspended fr)
    obtain s1 pool1 where r: "run cr opts es (s, pool) = (s1, pool1)"
      by (cases "run cr opts es (s, pool)")
    obtain out1 s2 where q: "resume opts fr s1 = (out1, s2)"
      by (cases "resume opts fr s1")
    have "within opts m M out1 s2"
      using resume_within [of opts m M fr s s1] Cons.prems(1) Suspended q by simp
    moreover have "follow cr opts ess (out1, s2, pool1) = (out', s', pool')"
      using Cons.prems(2) Suspended r q by simp
    ultimately show ?thesis by (rule Cons.IH)
  qed (use Cons.prems in simp_all)
qed

lemma processCall_within:
  assumes "editorModel s = Some m"
    and "processCall cr opts ess (s, pool) = (Finished, s', pool')"
  shows "set (modelMarkers s' (uri m)) \<subseteq> markersOf opts (docTokens opts (getValue m))"
proof -
  obtain out s1 where p: "process opts s = (out, s1)"
    by (cases "process opts s")
  have "within opts m (markersOf opts (docTokens opts (getValue m))) out s1"
  proof (cases "disposed s")
    case True
    then show ?thesis using p by (auto simp: process_def within_def)
  next
    case False
    then show ?thesis
      using p assms(1) scanLines_within [of opts m "[]" 0 "splitLines (getValue m)" s]
      by (simp add: process_def docTokens_def)
  qed
  moreover have "follow cr opts ess (out, s1, pool) = (Finished, s', pool')"
    using assms(2) p by (simp add: processCall_def)
  ultimately have "within opts m (markersOf opts (docTokens opts (getValue m))) Finished s'"
    by (rule follow_within)
  then show ?thesis by (simp add: within_def)
qed

lemma docTokens_line:
  assumes "(li, t) \<in> set (docTokens opts tx)"
  shows "li < length (splitLines tx) \<and> t \<in> set (theTokenize opts (splitLines tx ! li))"
proof -
  have "(li, t) \<in> set (indexedTokens opts (enumerate n ls)) \<Longrightarrow>
      n \<le> li \<and> li - n < length ls \<and> t \<in> set (theTokenize opts (ls ! (li - n)))" for n ls
  proof (induction ls arbitrary: n)
    case Nil
    then show ?case by (simp add: indexedTokens_Nil)
  next
    case (Cons l ls)
    from Cons.prems consider "li = n" "t \<in> set (theTokenize opts l)"
      | "(li, t) \<in> set (indexedTokens opts (enumerate (Suc n) ls))"
      by (auto simp: indexedTokens_Cons)
    then show ?case
    proof cases
      case 1
      then show ?thesis by simp
    next
      case 2
      from Cons.IH [OF this] show ?thesis
        by (auto simp: Suc_diff_le)
    qed
  qed
  from this [of 0 "splitLines tx"] assms show ?thesis
    by (simp add: docTokens_def)
qed

lemma provideCodeActions_suggest:
  assumes "\<not> disposed s" and "find (\<lambda>x. cr x rng) (modelMarkers s (uri m)) = Some mk"
  shows "\<exists>tr. trace (snd (provideCodeActions cr opts m rng cancelled s))
            = trace s @ CallSuggest (code mk) # tr"
  using assms
  by (cases "suggest opts (ext s) (code mk)")
     (auto simp: provideCodeActions_def Let_def split: returned.splits)

text \<open>
  C9. Every marker published by a call of \<open>process()\<close> that completes, whatever the checker
  and whatever happens while the call is suspended, is the marker of a token of a line of
  the document: it ends on the line it starts on, its end column is its start column plus
  the length of the token's word, and its code is that word. A code action query that
  finds the marker calls the suggester with the code of the marker.
\<close>

theorem published_marker_of_token:
  assumes "editorModel s = Some m"
    and "processCall cr opts ess (s, pool) = (Finished, s', pool')"
    and "mk \<in> set (modelMarkers s' (uri m))"
  shows "endLineNumber mk = startLineNumber mk
     \<and> endColumn mk = startColumn mk + int (length (code mk))
     \<and> (\<exists>lineIndex t.
           lineIndex < length (splitLines (getValue m))
           \<and> t \<in> set (theTokenize opts (splitLines (getValue m) ! lineIndex))
           \<and> code mk = word t
           \<and> startLineNumber mk = int lineIndex + 1
           \<and> startColumn mk = pos t + 1
           \<and> endColumn mk = startColumn mk + int (length (word t)))
     \<and> (\<forall>cr' qm rng cancelled s2.
           \<not> disposed s2 \<and> find (\<lambda>x. cr' x rng) (modelMarkers s2 (uri qm)) = Some mk \<longrightarrow>
           (\<exists>tr. trace (snd (provideCodeActions cr' opts qm rng cancelled s2))
                  = trace s2 @ CallSuggest (code mk) # tr))"
proof -
  from processCall_within [OF assms(1,2)] assms(3)
  have "mk \<in> markersOf opts (docTokens opts (getValue m))" by blast
  then obtain li t where it: "(li, t) \<in> set (docTokens opts (getValue m))"
      and mk: "mk = newMarker opts li t"
    by (auto simp: markersOf_def)
  from docTokens_line [OF it] have li: "li < length (splitLines (getValue m))"
      and t: "t \<in> set (theTokenize opts (splitLines (getValue m) ! li))"
    by simp_all
  have f: "endLineNumber mk = startLineNumber mk" "code mk = word t"
      "startLineNumber mk = int li + 1" "startColumn mk = pos t + 1"
      "endColumn mk = startColumn mk + int (length (word t))"
    by (simp_all add: mk newMarker_def Let_def)
  have "\<exists>lineIndex t.
           lineIndex < length (splitLines (getValue m))
           \<and> t \<in> set (theTokenize opts (splitLines (getValue m) ! lineIndex))
           \<and> code mk = word t
           \<and> startLineNumber mk = int lineIndex + 1
           \<and> startColumn mk = pos t + 1
           \<and> endColumn mk = startColumn mk + int (length (word t))"
    using li t f by blast
  moreover have "endColumn mk = startColumn mk + int (length (code mk))"
    using f by simp
  ultimately show ?thesis
    using f(1) provideCodeActions_suggest by blast
qed

theorem published_marker_of_token_witness:
  "fst (processCall containsRange countingOptions [[], [DoEmbedder Suc], []] (countingSession, []))
     = Finished
   \<and> newMarker countingOptions 1 \<lparr>word = ''hrre'', pos = 3\<rparr>
       \<in> set (modelMarkers
                (fst (snd (processCall containsRange countingOptions [[], [DoEmbedder Suc], []]
                             (countingSession, []))))
                (uri exampleModel))
   \<and> code (newMarker countingOptions 1 \<lparr>word = ''hrre'', pos = 3\<rparr>) = ''hrre''
   \<and> startColumn (newMarker countingOptions 1 \<lparr>word = ''hrre'', pos = 3\<rparr>) = 4
   \<and> endColumn (newMarker countingOptions 1 \<lparr>word = ''hrre'', pos = 3\<rparr>)
       = startColumn (newMarker countingOptions 1 \<lparr>word = ''hrre'', pos = 3\<rparr>)
         + int (length (code (newMarker countingOptions 1 \<lparr>word = ''hrre'', pos = 3\<rparr>)))
   \<and> endLineNumber (newMarker countingOptions 1 \<lparr>word = ''hrre'', pos = 3\<rparr>)
       = startLineNumber (newMarker countingOptions 1 \<lparr>word = ''hrre'', pos = 3\<rparr>)"
proof -
  define r where
    "r = processCall containsRange countingOptions [[], [DoEmbedder Suc], []] (countingSession, [])"
  define mk where "mk = newMarker countingOptions 1 \<lparr>word = ''hrre'', pos = 3\<rparr>"
  have 1: "editorModel countingSession = Some exampleModel"
    by (simp add: countingSession_def getSpellchecker_def)
  have 2: "fst r = Finished"
    unfolding r_def by code_simp
  then have 3: "processCall containsRange countingOptions [[], [DoEmbedder Suc], []]
        (countingSession, [])
      = (Finished, fst (snd r), snd (snd r))"
    by (simp add: r_def [symmetric] prod_eq_iff)
  have 4: "mk \<in> set (modelMarkers (fst (snd r)) (uri exampleModel))"
    unfolding r_def mk_def by code_simp
  have 5: "code mk = ''hrre''" "startColumn mk = 4"
    by (simp_all add: mk_def newMarker_def Let_def)
  from published_marker_of_token [OF 1 3 4]
  have "endLineNumber mk = startLineNumber mk"
      and "endColumn mk = startColumn mk + int (length (code mk))"
    by blast+
  with 2 4 5 show ?thesis unfolding r_def mk_def by simp
qed

subsection \<open>What a completed call publishes\<close>

text \<open>
  C2. Let the checker answer every word with the verdict \<open>correct\<close> gives it, at once or
  through a promise, without throwing, and let the document hold at most 500 misspelled
  tokens. Then a call of \<open>process()\<close> that completes, whatever happens while it is
  suspended, has published exactly one marker for each misspelled token, in the order of
  the scan: on line \<open>lineIndex + 1\<close>, from column \<open>pos + 1\<close> to column
  \<open>pos + 1 + length word\<close>, with the word as its code, the hover message and the
  configured or default severity. And the call does complete when the session is not
  disposed and the call is left alone while each of its promises settles.
\<close>

theorem process_publishes_every_misspelling:
  assumes "\<forall>d w. verdict (fst (check opts d w)) = Some (correct w)"
    and "editorModel s = Some m"
    and "length (misspelledTokens opts correct (getValue m)) \<le> 500"
  shows "(processCall cr opts ess (s, pool) = (Finished, s', pool') \<longrightarrow>
      modelMarkers s' (uri m) =
        map (\<lambda>(lineIndex, t).
               \<lparr>startLineNumber = int lineIndex + 1,
                startColumn = pos t + 1,
                endLineNumber = int lineIndex + 1,
                endColumn = pos t + 1 + int (length (word t)),
                code = word t,
                message = theMessageBuilder opts HoverMessage (word t)
                            \<lparr>startLineNumber = int lineIndex + 1, startColumn = pos t + 1,
                             endLineNumber = int lineIndex + 1,
                             endColumn = pos t + 1 + int (length (word t))\<rparr>,
                severity = (case optSeverity opts of None \<Rightarrow> Warning | Some sv \<Rightarrow> sv)\<rparr>)
          (misspelledTokens opts correct (getValue m))
      \<and> length (modelMarkers s' (uri m)) = length (misspelledTokens opts correct (getValue m)))
   \<and> (\<not> disposed s \<longrightarrow>
        fst (processCall cr opts (replicate (length (docTokens opts (getValue m))) []) (s, pool))
          = Finished)"
proof (intro conjI impI)
  let ?v = "\<lambda>w. Some (correct w)"
  let ?mk = "\<lambda>(lineIndex, t).
               \<lparr>startLineNumber = int lineIndex + 1,
                startColumn = pos t + 1,
                endLineNumber = int lineIndex + 1,
                endColumn = pos t + 1 + int (length (word t)),
                code = word t,
                message = theMessageBuilder opts HoverMessage (word t)
                            \<lparr>startLineNumber = int lineIndex + 1, startColumn = pos t + 1,
                             endLineNumber = int lineIndex + 1,
                             endColumn = pos t + 1 + int (length (word t))\<rparr>,
                severity = (case optSeverity opts of None \<Rightarrow> Warning | Some sv \<Rightarrow> sv)\<rparr>"
  have j: "judges opts ?v" using assms(1) by (rule judges_const)
  assume fin: "processCall cr opts ess (s, pool) = (Finished, s', pool')"
  have "modelMarkers s' (uri m) = linesMarks opts ?v 0 (splitLines (getValue m)) []"
    using j assms(2) fin by (rule processCall_Finished)
  also have "\<dots> = [] @ map (\<lambda>(j, t). newMarker opts j t) (misspelledTokens opts correct (getValue m))"
    unfolding misspelledTokens_indexed
    using assms(3) by (intro linesMarks_all) (simp add: misspelledTokens_indexed)
  finally have "modelMarkers s' (uri m) =
      map (\<lambda>(j, t). newMarker opts j t) (misspelledTokens opts correct (getValue m))"
    by simp
  then show pub: "modelMarkers s' (uri m) = map ?mk (misspelledTokens opts correct (getValue m))"
    by (simp add: newMarker_def Let_def)
  then show "length (modelMarkers s' (uri m)) = length (misspelledTokens opts correct (getValue m))"
    by simp
next
  assume d: "\<not> disposed s"
  have n: "\<forall>d w. verdict (fst (check opts d w)) \<noteq> None"
    using assms(1) by simp
  show "fst (processCall cr opts (replicate (length (docTokens opts (getValue m))) [])
      (s, pool)) = Finished"
    using n d assms(2) le_refl by (rule processCall_completes)
qed

theorem process_publishes_every_misspelling_witness:
  "fst (processCall containsRange countingOptions [[DoEmbedder Suc], [], []] (countingSession, []))
     = Finished
   \<and> misspelledTokens countingOptions inDictionary (getValue exampleModel)
     = [(0, \<lparr>word = ''teh'', pos = 0\<rparr>), (1, \<lparr>word = ''hrre'', pos = 3\<rparr>)]
   \<and> modelMarkers
       (fst (snd (processCall containsRange countingOptions [[DoEmbedder Suc], [], []]
                    (countingSession, []))))
       (uri exampleModel)
     = [\<lparr>startLineNumber = 1, startColumn = 1, endLineNumber = 1, endColumn = 4,
         code = ''teh'', message = [CHR 0x22] @ ''teh'' @ [CHR 0x22] @ '' is misspelled.'',
         severity = Warning\<rparr>,
        \<lparr>startLineNumber = 2, startColumn = 4, endLineNumber = 2, endColumn = 8,
         code = ''hrre'', message = [CHR 0x22] @ ''hrre'' @ [CHR 0x22] @ '' is misspelled.'',
         severity = Warning\<rparr>]
   \<and> fst (processCall containsRange countingOptions
          (replicate (length (docTokens countingOptions (getValue exampleModel))) [])
          (countingSession, []))
     = Finished"
proof -
  define r where
    "r = processCall containsRange countingOptions [[DoEmbedder Suc], [], []] (countingSession, [])"
  have 1: "\<forall>d w. verdict (fst (check countingOptions d w)) = Some (inDictionary w)"
    by (rule countingOptions_verdict)
  have 2: "editorModel countingSession = Some exampleModel"
    by (simp add: countingSession_def getSpellchecker_def)
  have 3: "misspelledTokens countingOptions inDictionary (getValue exampleModel)
      = [(0, \<lparr>word = ''teh'', pos = 0\<rparr>), (1, \<lparr>word = ''hrre'', pos = 3\<rparr>)]"
    by code_simp
  have 4: "fst r = Finished"
    unfolding r_def by code_simp
  have 5: "processCall containsRange countingOptions [[DoEmbedder Suc], [], []] (countingSession, [])
      = (Finished, fst (snd r), snd (snd r))"
    using 4 by (simp add: r_def [symmetric] prod_eq_iff)
  have 6: "length (misspelledTokens countingOptions inDictionary (getValue exampleModel)) \<le> 500"
    using 3 by simp
  have 7: "optSeverity countingOptions = None" "messageBuilder countingOptions = None"
    by (simp_all add: countingOptions_def)
  have 8: "\<not> disposed countingSession"
    by (simp add: countingSession_def getSpellchecker_def)
  note inst = process_publishes_every_misspelling
      [OF 1 2 6, of containsRange "[[DoEmbedder Suc], [], []]" "[]" "fst (snd r)" "snd (snd r)"]
  have "modelMarkers (fst (snd r)) (uri exampleModel)
     = [\<lparr>startLineNumber = 1, startColumn = 1, endLineNumber = 1, endColumn = 4,
         code = ''teh'', message = [CHR 0x22] @ ''teh'' @ [CHR 0x22] @ '' is misspelled.'',
         severity = Warning\<rparr>,
        \<lparr>startLineNumber = 2, startColumn = 4, endLineNumber = 2, endColumn = 8,
         code = ''hrre'', message = [CHR 0x22] @ ''hrre'' @ [CHR 0x22] @ '' is misspelled.'',
         severity = Warning\<rparr>]"
    using inst [THEN conjunct1, rule_format, OF 5, THEN conjunct1] 3 7
    by (simp add: theMessageBuilder_def defaultMessageBuilder_def)
  moreover have "fst (processCall containsRange countingOptions
          (replicate (length (docTokens countingOptions (getValue exampleModel))) [])
          (countingSession, [])) = Finished"
    using inst [THEN conjunct2, rule_format, OF 8] .
  ultimately show ?thesis
    using 3 4 unfolding r_def by simp
qed

end
